theory Spec2Isabelle
  imports Main "HOL-Library.Word" "HOL-Library.Multiset"
begin

section \<open>The inpainting processor of \<^verbatim>\<open>processor.js\<close>\<close>

text \<open>
  \<^verbatim>\<open>InpaintProcessor.process(imageData, maskData)\<close> fills the pixels that the mask marks
  (mask alpha \<open>> 0\<close>) from their unmasked neighbours, pass after pass. Both arguments are
  \<^verbatim>\<open>ImageData\<close> objects; their \<^verbatim>\<open>data\<close> is a \<^verbatim>\<open>Uint8ClampedArray\<close>, mutated in place.
  The embedding passes the two arrays and the local variables of \<^verbatim>\<open>process\<close> along
  explicitly.
\<close>

subsection \<open>Data\<close>

type_synonym byte = "8 word"

text \<open>An \<^verbatim>\<open>ImageData\<close>: \<^verbatim>\<open>width\<close>, \<^verbatim>\<open>height\<close> and the byte array \<^verbatim>\<open>data\<close>.\<close>

record ImageData =
  width :: nat
  height :: nat
  data :: "byte list"

text \<open>
  The object \<^verbatim>\<open>{ x, y, i, solved }\<close> pushed by the scan (line 33); its fields \<^verbatim>\<open>x\<close>,
  \<^verbatim>\<open>y\<close> and \<^verbatim>\<open>i\<close> are \<open>p_x\<close>, \<open>p_y\<close> and \<open>p_i\<close> here.
\<close>

record DamagedPixel =
  p_x :: nat
  p_y :: nat
  p_i :: nat
  solved :: bool

text \<open>
  The arrays and the local variables of \<^verbatim>\<open>process\<close> that the passes change: \<open>dat\<close>
  is the array \<^verbatim>\<open>data\<close> of the image, \<open>mask\<close> the array \<^verbatim>\<open>mask\<close> of the mask. The
  counter \<^verbatim>\<open>maxIterations\<close> is an argument of the loop below.
\<close>

record locals =
  dat :: "byte list"
  mask :: "byte list"
  damagedPixels :: "DamagedPixel list"
  solvedThisPass :: "DamagedPixel list"
  remaining :: int

subsection \<open>Typed-array access\<close>

text \<open>
  Reading a typed array outside its range gives \<^verbatim>\<open>undefined\<close> (here \<open>None\<close>); writing
  outside its range does nothing. Neither throws.
\<close>

definition rd :: "byte list \<Rightarrow> nat \<Rightarrow> byte option" where
  "rd a j = (if j < length a then Some (a ! j) else None)"

definition wr :: "byte list \<Rightarrow> nat \<Rightarrow> byte \<Rightarrow> byte list" where
  "wr a j v = (if j < length a then a[j := v] else a)"

text \<open>
  \<^verbatim>\<open>mask[i + 3] > 0\<close> for the pixel at array index \<open>i\<close>. The comparison
  \<^verbatim>\<open>undefined > 0\<close> is false.
\<close>

definition isMasked :: "byte list \<Rightarrow> nat \<Rightarrow> bool" where
  "isMasked m j = (case rd m (j + 3) of None \<Rightarrow> False | Some v \<Rightarrow> 0 < v)"

text \<open>
  \<^verbatim>\<open>r += data[ni]\<close>: the accumulators are JavaScript numbers. They hold sums of bytes
  (\<open>Some\<close> of a natural number) until an \<^verbatim>\<open>undefined\<close> is added; from then on they
  are \<^verbatim>\<open>NaN\<close> (\<open>None\<close>).
\<close>

definition acc_add :: "nat option \<Rightarrow> byte option \<Rightarrow> nat option" where
  "acc_add r v = (case r of None \<Rightarrow> None
                  | Some s \<Rightarrow> (case v of None \<Rightarrow> None | Some b \<Rightarrow> Some (s + unat b)))"

text \<open>
  \<^verbatim>\<open>data[p.i] = r / count\<close>: the quotient is stored into a \<^verbatim>\<open>Uint8ClampedArray\<close>,
  which converts it by \<^verbatim>\<open>ToUint8Clamp\<close>: \<^verbatim>\<open>NaN\<close> becomes 0, the value is clamped to
  \<open>[0, 255]\<close> and rounded to the nearest integer, a tie going to the even one.
  The sums are at most \<open>8 * 255\<close> and the divisor at most 8, so the double-precision
  quotient lies on the same side of every integer and of every half as the exact one,
  and the conversion is computed here on the exact quotient. The source's \<^verbatim>\<open>count\<close>
  is \<open>cnt\<close> here; the function is only called with \<open>0 < cnt\<close>.
\<close>

definition round_half_even :: "nat \<Rightarrow> nat \<Rightarrow> nat" where
  "round_half_even s cnt =
     (let f = s div cnt; m = s mod cnt in
      if 2 * m < cnt then f
      else if cnt < 2 * m then f + 1
      else if even f then f else f + 1)"

definition ToUint8Clamp_div :: "nat option \<Rightarrow> nat \<Rightarrow> byte" where
  "ToUint8Clamp_div r cnt = (case r of None \<Rightarrow> 0
     | Some s \<Rightarrow> of_nat (if 255 * cnt \<le> s then 255 else round_half_even s cnt))"

subsection \<open>The scan (lines 27 to 36)\<close>

definition scan_pixel :: "nat \<Rightarrow> byte list \<Rightarrow> nat \<Rightarrow> nat \<Rightarrow> DamagedPixel list" where
  "scan_pixel w m yy xx =
     (let i = (yy * w + xx) * 4 in
      if isMasked m i then [\<lparr>p_x = xx, p_y = yy, p_i = i, solved = False\<rparr>] else [])"

definition scan :: "nat \<Rightarrow> nat \<Rightarrow> byte list \<Rightarrow> DamagedPixel list" where
  "scan w h m = concat (map (\<lambda>yy. concat (map (scan_pixel w m yy) [0..<w])) [0..<h])"

subsection \<open>The 8-neighbour loop (lines 53 to 76)\<close>

text \<open>The pairs \<open>(dx, dy)\<close> in the order of the two nested loops, \<open>(0, 0)\<close> skipped.\<close>

definition offsets :: "(int \<times> int) list" where
  "offsets = [(-1, -1), (0, -1), (1, -1), (-1, 0), (1, 0), (-1, 1), (0, 1), (1, 1)]"

type_synonym acc = "nat option \<times> nat option \<times> nat option \<times> nat"

definition neighbor :: "nat \<Rightarrow> nat \<Rightarrow> byte list \<Rightarrow> byte list \<Rightarrow> DamagedPixel \<Rightarrow> acc \<Rightarrow> int \<times> int \<Rightarrow> acc" where
  "neighbor w h d m p a off =
     (case a of (r, g, b, cnt) \<Rightarrow>
      (let nx = int (p_x p) + fst off; ny = int (p_y p) + snd off in
       if 0 \<le> nx \<and> nx < int w \<and> 0 \<le> ny \<and> ny < int h then
         (let ni = (nat ny * w + nat nx) * 4 in
          if \<not> isMasked m ni
          then (acc_add r (rd d ni), acc_add g (rd d (ni + 1)), acc_add b (rd d (ni + 2)), cnt + 1)
          else a)
       else a))"

definition neighbors :: "nat \<Rightarrow> nat \<Rightarrow> byte list \<Rightarrow> byte list \<Rightarrow> DamagedPixel \<Rightarrow> acc" where
  "neighbors w h d m p = foldl (neighbor w h d m p) (Some 0, Some 0, Some 0, 0) offsets"

subsection \<open>One pass over the damaged pixels (lines 46 to 88)\<close>

text \<open>
  The body of the loop over \<open>k\<close> for the record \<open>p = damagedPixels[k]\<close>: it returns the
  record (with \<open>solved\<close> set when the pixel was filled) and the new locals.
\<close>

definition solve_pixel :: "nat \<Rightarrow> nat \<Rightarrow> DamagedPixel \<Rightarrow> locals \<Rightarrow> DamagedPixel \<times> locals" where
  "solve_pixel w h p st =
     (if solved p then (p, st)
      else (case neighbors w h (dat st) (mask st) p of (r, g, b, cnt) \<Rightarrow>
        if 0 < cnt then
          (let d1 = wr (dat st) (p_i p) (ToUint8Clamp_div r cnt);
               d2 = wr d1 (p_i p + 1) (ToUint8Clamp_div g cnt);
               d3 = wr d2 (p_i p + 2) (ToUint8Clamp_div b cnt);
               d4 = wr d3 (p_i p + 3) 255;
               p' = p\<lparr>solved := True\<rparr>
           in (p', st\<lparr>dat := d4, solvedThisPass := solvedThisPass st @ [p']\<rparr>))
        else (p, st)))"

fun for_k :: "nat \<Rightarrow> nat \<Rightarrow> DamagedPixel list \<Rightarrow> locals \<Rightarrow> DamagedPixel list \<times> locals" where
  "for_k w h [] st = ([], st)"
| "for_k w h (p # ps) st =
     (case solve_pixel w h p st of (p', st1) \<Rightarrow>
      (case for_k w h ps st1 of (ps', st2) \<Rightarrow> (p' # ps', st2)))"

definition pass :: "nat \<Rightarrow> nat \<Rightarrow> locals \<Rightarrow> locals" where
  "pass w h st =
     (case for_k w h (damagedPixels st) (st\<lparr>solvedThisPass := []\<rparr>) of
        (ps', st') \<Rightarrow> st'\<lparr>damagedPixels := ps'\<rparr>)"

subsection \<open>Clearing the mask after the pass (lines 91 to 94)\<close>

definition unmask :: "locals \<Rightarrow> DamagedPixel \<Rightarrow> locals" where
  "unmask st sp = st\<lparr>mask := wr (mask st) (p_i sp + 3) 0, remaining := remaining st - 1\<rparr>"

definition commit :: "locals \<Rightarrow> locals" where
  "commit st = foldl unmask st (solvedThisPass st)"

subsection \<open>The pass loop (lines 41 to 97)\<close>

text \<open>One run of the body of the \<^verbatim>\<open>while\<close> loop: a pass, then the clearing.\<close>

definition loop_body :: "nat \<Rightarrow> nat \<Rightarrow> locals \<Rightarrow> locals" where
  "loop_body w h st = commit (pass w h st)"

text \<open>How the loop was left.\<close>

datatype exit =
    Resolved       \<comment> \<open>\<^verbatim>\<open>remaining > 0\<close> is false\<close>
  | CapExhausted   \<comment> \<open>\<^verbatim>\<open>maxIterations-- > 0\<close> is false\<close>
  | Stuck          \<comment> \<open>the \<^verbatim>\<open>break\<close> of line 96\<close>

text \<open>
  The \<^verbatim>\<open>while\<close> loop, with the condition \<^verbatim>\<open>remaining > 0 && maxIterations-- > 0\<close>:
  the counter is only read and decremented when \<open>remaining\<close> is positive. The
  argument \<open>n\<close> counts the passes run so far; it is not a variable of the source. The
  result is the locals at the exit, the number of passes run, and the way the loop was
  left.
\<close>

function while_loop :: "nat \<Rightarrow> nat \<Rightarrow> nat \<Rightarrow> int \<Rightarrow> locals \<Rightarrow> locals \<times> nat \<times> exit" where
  "while_loop w h n maxIterations st =
     (if 0 < remaining st then
        (if 0 < maxIterations then
           (let st' = loop_body w h st in
            if solvedThisPass st' = [] then (st', Suc n, Stuck)
            else while_loop w h (Suc n) (maxIterations - 1) st')
         else (st, n, CapExhausted))
      else (st, n, Resolved))"
  by pat_completeness auto
termination
  by (relation "measure (\<lambda>(w, h, n, maxIterations, st). nat maxIterations)") simp_all

subsection \<open>\<^verbatim>\<open>process\<close>\<close>

definition init :: "ImageData \<Rightarrow> ImageData \<Rightarrow> locals" where
  "init imageData maskData =
     (let ps = scan (width imageData) (height imageData) (data maskData) in
      \<lparr>dat = data imageData, mask = data maskData, damagedPixels = ps,
       solvedThisPass = [], remaining = int (length ps)\<rparr>)"

definition process :: "ImageData \<Rightarrow> ImageData \<Rightarrow> locals \<times> nat \<times> exit" where
  "process imageData maskData =
     while_loop (width imageData) (height imageData) 0 500 (init imageData maskData)"

text \<open>The returned \<^verbatim>\<open>imageData\<close>: the same object, with its array as the loop left it.\<close>

definition returned :: "ImageData \<Rightarrow> ImageData \<Rightarrow> ImageData" where
  "returned imageData maskData = imageData\<lparr>data := dat (fst (process imageData maskData))\<rparr>"

subsection \<open>Predicates used in the proofs\<close>

text \<open>The \<^verbatim>\<open>count\<close> of a result of the neighbour loop.\<close>

definition cnt_of :: "acc \<Rightarrow> nat" where
  "cnt_of a = snd (snd (snd a))"

text \<open>
  The record \<open>p\<close> is filled by the body of the loop over \<open>k\<close> when the arrays are
  \<open>d\<close> and \<open>m\<close>: it is not solved yet (line 50) and \<^verbatim>\<open>count > 0\<close> (line 78).
\<close>

definition solves :: "nat \<Rightarrow> nat \<Rightarrow> byte list \<Rightarrow> byte list \<Rightarrow> DamagedPixel \<Rightarrow> bool" where
  "solves w h d m p = (\<not> solved p \<and> 0 < cnt_of (neighbors w h d m p))"

text \<open>
  The neighbour of the record \<open>p\<close> at the offset \<open>off = (dx, dy)\<close> is in bounds, in the
  words of the specification: \<open>0 \<le> x + dx < width\<close> and \<open>0 \<le> y + dy < height\<close>. The source's
  own test is the one of line 63, in \<open>neighbor\<close>.
\<close>

definition in_bounds :: "nat \<Rightarrow> nat \<Rightarrow> DamagedPixel \<Rightarrow> int \<times> int \<Rightarrow> bool" where
  "in_bounds w h p off =
     (0 \<le> int (p_x p) + fst off \<and> int (p_x p) + fst off < int w \<and>
      0 \<le> int (p_y p) + snd off \<and> int (p_y p) + snd off < int h)"

text \<open>The arrays \<open>d\<close> and \<open>d'\<close> hold the same four bytes at every pixel that \<open>m\<close> does not mask.\<close>

definition same_unmasked :: "byte list \<Rightarrow> byte list \<Rightarrow> byte list \<Rightarrow> bool" where
  "same_unmasked m d d' =
     (length d' = length d \<and>
      (\<forall>k c. c < 4 \<longrightarrow> \<not> isMasked m (4 * k) \<longrightarrow> rd d' (4 * k + c) = rd d (4 * k + c)))"

text \<open>
  The invariant of the pass loop, for the arrays \<open>d0\<close> and \<open>m0\<close> that \<^verbatim>\<open>process\<close> was
  called with: the records are those of the scan but for their \<open>solved\<close> flags; the
  mask is \<open>m0\<close> with the alpha of the solved records cleared; the image array differs
  from \<open>d0\<close> only in the four bytes of solved records; and \<open>remaining\<close> counts the
  records that are not solved.
\<close>

definition pass_inv :: "nat \<Rightarrow> nat \<Rightarrow> byte list \<Rightarrow> byte list \<Rightarrow> locals \<Rightarrow> bool" where
  "pass_inv w h d0 m0 st =
     (map (\<lambda>p. p\<lparr>solved := False\<rparr>) (damagedPixels st) = scan w h m0
      \<and> length (dat st) = length d0
      \<and> (\<forall>j. rd (mask st) j =
               (if \<exists>p\<in>set (damagedPixels st). solved p \<and> j = p_i p + 3 then Some 0 else rd m0 j))
      \<and> (\<forall>j. rd (dat st) j \<noteq> rd d0 j \<longrightarrow>
               (\<exists>p\<in>set (damagedPixels st). solved p \<and> p_i p \<le> j \<and> j < p_i p + 4))
      \<and> remaining st = int (length (filter (\<lambda>p. \<not> solved p) (damagedPixels st))))"

subsection \<open>Inputs used as examples\<close>

text \<open>A 2 by 1 image, a mask without damage for it, and a mask with both pixels damaged.\<close>

definition img_2x1 :: ImageData where
  "img_2x1 = \<lparr>width = 2, height = 1, data = [1, 2, 3, 4, 50, 60, 70, 80]\<rparr>"

definition msk_2x1_clear :: ImageData where
  "msk_2x1_clear = \<lparr>width = 2, height = 1, data = [9, 9, 9, 0, 9, 9, 9, 0]\<rparr>"

definition msk_2x1_full :: ImageData where
  "msk_2x1_full = \<lparr>width = 2, height = 1, data = [0, 0, 0, 9, 0, 0, 0, 1]\<rparr>"

text \<open>A mask for the 2 by 1 image with only the first pixel, the top-left corner, damaged.\<close>

definition msk_2x1_corner :: ImageData where
  "msk_2x1_corner = \<lparr>width = 2, height = 1, data = [0, 0, 0, 255, 0, 0, 0, 0]\<rparr>"

text \<open>
  A 3 by 3 image with only its centre damaged. The red channels of the eight neighbours
  add up to 12, the green ones to 9, the blue ones to 20.
\<close>

definition img_3x3 :: ImageData where
  "img_3x3 = \<lparr>width = 3, height = 3, data =
     [12, 1, 0, 9,  0, 1, 0, 9,  0, 1, 0, 9,
       0, 1, 0, 9,  7, 7, 7, 7,  0, 1, 0, 9,
       0, 1, 0, 9,  0, 1, 0, 9,  0, 2, 20, 9]\<rparr>"

definition msk_3x3 :: ImageData where
  "msk_3x3 = \<lparr>width = 3, height = 3, data =
     [0, 0, 0, 0,  0, 0, 0, 0,  0, 0, 0, 0,
      0, 0, 0, 0,  0, 0, 0, 1,  0, 0, 0, 0,
      0, 0, 0, 0,  0, 0, 0, 0,  0, 0, 0, 0]\<rparr>"

text \<open>
  A 2 by 2 image with only its top-left pixel damaged. The three neighbours' red
  channels add up to 12 (mean 4), the green ones to 21 (mean 7), the blue ones to 2
  (mean 0.67).
\<close>

definition img_2x2 :: ImageData where
  "img_2x2 = \<lparr>width = 2, height = 2, data =
     [100, 100, 100, 100,  6, 9, 0, 7,
        3,   6,   2,   7,  3, 6, 0, 7]\<rparr>"

definition msk_2x2_corner :: ImageData where
  "msk_2x2_corner = \<lparr>width = 2, height = 2, data =
     [255, 0, 0, 128,  0, 0, 0, 0,
        0, 0, 0,   0,  0, 0, 0, 0]\<rparr>"

text \<open>
  A 3 by 1 image whose second and third pixels are damaged: the second is filled in the
  first pass, the third in the second pass.
\<close>

definition img_3x1 :: ImageData where
  "img_3x1 = \<lparr>width = 3, height = 1, data = [10, 20, 30, 40,  1, 1, 1, 1,  2, 2, 2, 2]\<rparr>"

definition msk_3x1 :: ImageData where
  "msk_3x1 = \<lparr>width = 3, height = 1, data = [0, 0, 0, 0,  0, 0, 0, 255,  0, 0, 0, 255]\<rparr>"

text \<open>Two 1 by 1 masks, one with its pixel damaged and one without damage.\<close>

definition msk_1x1 :: ImageData where
  "msk_1x1 = \<lparr>width = 1, height = 1, data = [0, 0, 0, 255]\<rparr>"

definition msk_1x1_clear :: ImageData where
  "msk_1x1_clear = \<lparr>width = 1, height = 1, data = [7, 7, 7, 0]\<rparr>"

section \<open>Lemmas about the embedding\<close>

subsection \<open>Auxiliary facts\<close>

declare while_loop.simps [simp del]

lemma all_less_upt: "(\<forall>x<n. P x) = list_all P [0..<n]"
  by (auto simp: list_all_iff)

lemma init_simps [simp]:
  "dat (init img msk) = data img"
  "mask (init img msk) = data msk"
  "damagedPixels (init img msk) = scan (width img) (height img) (data msk)"
  "solvedThisPass (init img msk) = []"
  "remaining (init img msk) = int (length (scan (width img) (height img) (data msk)))"
  by (simp_all add: init_def Let_def)

lemma concat_map_Nil: "(\<And>a. a \<in> set xs \<Longrightarrow> f a = []) \<Longrightarrow> concat (map f xs) = []"
  by (induction xs) simp_all

lemma foldl_const: "(\<And>a x. f a x = a) \<Longrightarrow> foldl f a xs = a"
  by (induction xs) simp_all

lemma length_concat_const:
  "(\<And>a. a \<in> set xs \<Longrightarrow> length (f a) = c) \<Longrightarrow> length (concat (map f xs)) = length xs * c"
  by (induction xs) simp_all

lemma length_filter_split:
  assumes "\<And>x. x \<in> set xs \<Longrightarrow> Q x \<Longrightarrow> P x"
  shows "length (filter P xs) = length (filter Q xs) + length (filter (\<lambda>x. P x \<and> \<not> Q x) xs)"
  using assms by (induction xs) auto

lemma pixel_index_less: "xx < w \<Longrightarrow> yy < h \<Longrightarrow> yy * w + xx < w * (h::nat)"
proof -
  assume a: "xx < w" "yy < h"
  have "yy * w + xx < yy * w + w" using a(1) by simp
  also have "\<dots> = Suc yy * w" by simp
  also have "\<dots> \<le> h * w" using a(2) by (intro mult_le_mono1) simp
  finally show ?thesis by (simp add: mult.commute)
qed

lemma two_le_mult: "2 \<le> w \<Longrightarrow> 2 \<le> h \<Longrightarrow> w + 2 \<le> w * (h::nat)"
proof -
  assume a: "2 \<le> w" "2 \<le> h"
  have "w * 2 \<le> w * h" using a(2) by (rule mult_le_mono2)
  with a(1) show ?thesis by linarith
qed

lemma block_eq:
  assumes "4 dvd i" and "4 dvd i'" and "i' \<le> i + c" and "i + c < i' + 4" and "c < (4::nat)"
  shows "i' = i"
proof -
  from assms(1,2) obtain k k' where "i = 4 * k" "i' = 4 * k'" by (auto simp: dvd_def)
  with assms(3,4,5) show ?thesis by simp
qed

lemma upt_3: "[0..<3] = [0, 1, 2]"
  by (simp add: upt_rec)

subsection \<open>Array access and the stored quotient\<close>

lemma rd_wr: "rd (wr a j v) i = (if i = j \<and> j < length a then Some v else rd a i)"
  by (simp add: rd_def wr_def)

lemma wr_length [simp]: "length (wr a j v) = length a"
  by (simp add: wr_def)

lemma isMasked_rd: "isMasked m j \<longleftrightarrow> (\<exists>v. rd m (j + 3) = Some v \<and> 0 < v)"
  by (simp add: isMasked_def split: option.splits)

lemma isMasked_cong: "rd m' (j + 3) = rd m (j + 3) \<Longrightarrow> isMasked m' j = isMasked m j"
  by (simp add: isMasked_def)

lemma isMasked_nth: "j + 3 < length m \<Longrightarrow> isMasked m j = (0 < m ! (j + 3))"
  by (simp add: isMasked_def rd_def)

lemma unat_byte_le: "unat (x :: byte) \<le> 255"
  using unsigned_less [of x, where 'a = nat] by simp

lemma round_half_even_nearest:
  assumes "0 < c"
  shows "2 * c * round_half_even s c \<le> 2 * s + c \<and> 2 * s \<le> 2 * c * round_half_even s c + c
       \<and> (2 * c * round_half_even s c = 2 * s + c \<or> 2 * s = 2 * c * round_half_even s c + c
            \<longrightarrow> even (round_half_even s c))"
proof -
  define f where "f = s div c"
  define m where "m = s mod c"
  have s: "s = c * f + m" by (simp add: f_def m_def)
  have mc: "m < c" using assms(1) by (simp add: m_def)
  define v where "v = round_half_even s c"
  have r: "v = (if 2 * m < c then f else if c < 2 * m then f + 1
      else if even f then f else f + 1)"
    by (simp add: v_def round_half_even_def Let_def f_def m_def)
  have "2 * c * v \<le> 2 * s + c \<and> 2 * s \<le> 2 * c * v + c
       \<and> (2 * c * v = 2 * s + c \<or> 2 * s = 2 * c * v + c \<longrightarrow> even v)"
    unfolding r s using mc by (auto simp: algebra_simps)
  then show ?thesis unfolding v_def .
qed

lemma round_half_even_le:
  assumes "0 < c" "s \<le> 255 * c"
  shows "round_half_even s c \<le> 255"
proof -
  have "2 * c * round_half_even s c \<le> 2 * s + c"
    using round_half_even_nearest [OF assms(1)] by blast
  also have "\<dots> \<le> 2 * c * 255 + c" using assms(2) by simp
  finally have "2 * c * round_half_even s c < 2 * c * 256" using assms(1) by simp
  then have "round_half_even s c < 256" using assms(1) by simp
  then show ?thesis by simp
qed

lemma unat_ToUint8Clamp_div:
  assumes "0 < c" "s \<le> 255 * c"
  shows "unat (ToUint8Clamp_div (Some s) c) = round_half_even s c"
proof (cases "s = 255 * c")
  case True
  have "round_half_even (255 * c) c = 255"
    using assms(1) by (simp add: round_half_even_def)
  then show ?thesis using True by (simp add: ToUint8Clamp_div_def)
next
  case False
  have "round_half_even s c < 2 ^ LENGTH(8)"
    using round_half_even_le [OF assms] by simp
  then have "unat (of_nat (round_half_even s c) :: byte) = round_half_even s c"
    by (intro of_nat_inverse) simp_all
  then show ?thesis using False assms(2) by (simp add: ToUint8Clamp_div_def)
qed

subsection \<open>The records of the scan\<close>

lemma scan_pixel_unmasked: "\<not> isMasked m ((yy * w + xx) * 4) \<Longrightarrow> scan_pixel w m yy xx = []"
  by (simp add: scan_pixel_def)

lemma scan_pixel_masked:
  "isMasked m ((yy * w + xx) * 4) \<Longrightarrow>
   scan_pixel w m yy xx = [\<lparr>p_x = xx, p_y = yy, p_i = (yy * w + xx) * 4, solved = False\<rparr>]"
  by (simp add: scan_pixel_def)

lemma scan_Nil:
  assumes "\<forall>yy<h. \<forall>xx<w. \<not> isMasked m ((yy * w + xx) * 4)"
  shows "scan w h m = []"
  unfolding scan_def
  by (intro concat_map_Nil) (use assms in \<open>simp add: scan_pixel_unmasked\<close>)

lemma length_scan_all_masked:
  assumes "\<forall>yy<h. \<forall>xx<w. isMasked m ((yy * w + xx) * 4)"
  shows "length (scan w h m) = w * h"
proof -
  have row: "length (concat (map (scan_pixel w m yy) [0..<w])) = w" if "yy < h" for yy
  proof -
    have "length (concat (map (scan_pixel w m yy) [0..<w])) = length [0..<w] * 1"
      by (rule length_concat_const) (use assms that in \<open>simp add: scan_pixel_masked\<close>)
    then show ?thesis by simp
  qed
  have "length (scan w h m) = length [0..<h] * w"
    unfolding scan_def by (rule length_concat_const) (simp add: row)
  then show ?thesis by (simp add: mult.commute)
qed

lemma set_scan_row:
  "set (concat (map (scan_pixel w m yy) [0..<n])) =
     {\<lparr>p_x = xx, p_y = yy, p_i = (yy * w + xx) * 4, solved = False\<rparr> | xx.
        xx < n \<and> isMasked m ((yy * w + xx) * 4)}"
  by (auto simp: scan_pixel_def Let_def split: if_splits)

lemma set_scan:
  "set (scan w h m) =
     {\<lparr>p_x = xx, p_y = yy, p_i = (yy * w + xx) * 4, solved = False\<rparr> | xx yy.
        xx < w \<and> yy < h \<and> isMasked m ((yy * w + xx) * 4)}"
proof -
  have "set (scan w h m) = (\<Union>yy\<in>{0..<h}. set (concat (map (scan_pixel w m yy) [0..<w])))"
    by (simp add: scan_def)
  also have "\<dots> = (\<Union>yy\<in>{0..<h}.
      {\<lparr>p_x = xx, p_y = yy, p_i = (yy * w + xx) * 4, solved = False\<rparr> | xx.
        xx < w \<and> isMasked m ((yy * w + xx) * 4)})"
    by (simp only: set_scan_row)
  also have "\<dots> = {\<lparr>p_x = xx, p_y = yy, p_i = (yy * w + xx) * 4, solved = False\<rparr> | xx yy.
        xx < w \<and> yy < h \<and> isMasked m ((yy * w + xx) * 4)}"
    by auto
  finally show ?thesis .
qed

lemma distinct_scan_row: "distinct (map p_i (concat (map (scan_pixel w m yy) [0..<n])))"
proof (induction n)
  case 0
  show ?case by simp
next
  case (Suc n)
  have "p_i p < (yy * w + n) * 4" if "p \<in> set (concat (map (scan_pixel w m yy) [0..<n]))" for p
    using that unfolding set_scan_row by auto
  then have "(yy * w + n) * 4 \<notin> p_i ` set (concat (map (scan_pixel w m yy) [0..<n]))"
    by force
  with Suc show ?case
    by (auto simp: scan_pixel_def Let_def)
qed

lemma distinct_scan: "distinct (map p_i (scan w h m))"
proof (induction h)
  case 0
  show ?case by (simp add: scan_def)
next
  case (Suc h)
  have s: "scan w (Suc h) m = scan w h m @ concat (map (scan_pixel w m h) [0..<w])"
    by (simp add: scan_def)
  have lo: "p_i p < h * w * 4" if "p \<in> set (scan w h m)" for p
  proof -
    from that obtain xx yy where "xx < w" "yy < h" "p_i p = (yy * w + xx) * 4"
      unfolding set_scan by auto
    moreover from this have "yy * w + xx < w * h" by (intro pixel_index_less)
    ultimately show ?thesis by (simp add: mult.commute)
  qed
  have hi: "h * w * 4 \<le> p_i p" if "p \<in> set (concat (map (scan_pixel w m h) [0..<w]))" for p
    using that unfolding set_scan_row by auto
  have "p_i ` set (scan w h m) \<inter> p_i ` set (concat (map (scan_pixel w m h) [0..<w])) = {}"
    using lo hi by fastforce
  with Suc distinct_scan_row [of w m h w] show ?case
    unfolding s by simp
qed

lemma scan_records:
  assumes "p \<in> set (scan w h m)"
  shows "\<not> solved p" and "p_x p < w" and "p_y p < h" and "p_i p = (p_y p * w + p_x p) * 4"
    and "4 dvd p_i p" and "isMasked m (p_i p)"
  using assms unfolding set_scan by auto

lemma scan_complete:
  assumes "xx < w" and "yy < h" and "isMasked m ((yy * w + xx) * 4)"
  shows "(yy * w + xx) * 4 \<in> p_i ` set (scan w h m)"
proof -
  have "\<lparr>p_x = xx, p_y = yy, p_i = (yy * w + xx) * 4, solved = False\<rparr> \<in> set (scan w h m)"
    unfolding set_scan using assms by blast
  then show ?thesis by force
qed

subsection \<open>The while loop\<close>

lemma while_loop_done: "remaining st \<le> 0 \<Longrightarrow> while_loop w h n mi st = (st, n, Resolved)"
  by (simp add: while_loop.simps)

lemma while_loop_one_pass:
  assumes "0 < remaining st" and "0 < mi"
    and "solvedThisPass (loop_body w h st) \<noteq> []"
    and "remaining (loop_body w h st) \<le> 0"
  shows "while_loop w h n mi st = (loop_body w h st, Suc n, Resolved)"
proof -
  have "while_loop w h n mi st = while_loop w h (Suc n) (mi - 1) (loop_body w h st)"
    using assms(1,2,3) by (subst while_loop.simps) (simp add: Let_def)
  also have "\<dots> = (loop_body w h st, Suc n, Resolved)"
    using assms(4) by (rule while_loop_done)
  finally show ?thesis .
qed

lemma while_loop_iter:
  "while_loop w h n mi st = (st', n', e) \<Longrightarrow>
   \<exists>k. n' = n + k \<and> st' = (loop_body w h ^^ k) st \<and> int k \<le> max mi 0
     \<and> (\<forall>j<k. 0 < remaining ((loop_body w h ^^ j) st))
     \<and> (\<forall>j<k. 0 < j \<longrightarrow> solvedThisPass ((loop_body w h ^^ j) st) \<noteq> [])
     \<and> (case e of
           Resolved \<Rightarrow> remaining st' \<le> 0
         | Stuck \<Rightarrow> 0 < k \<and> 0 < remaining ((loop_body w h ^^ (k - 1)) st) \<and> solvedThisPass st' = []
         | CapExhausted \<Rightarrow> int k = max mi 0 \<and> 0 < remaining st')"
proof (induction w h n mi st arbitrary: st' n' e rule: while_loop.induct)
  case (1 w h n mi st)
  show ?case
  proof (cases "0 < remaining st")
    case False
    with "1.prems" have "st' = st" "n' = n" "e = Resolved"
      by (simp_all add: while_loop.simps [of w h n mi st])
    with False show ?thesis by (intro exI [of _ 0]) simp
  next
    case rem: True
    show ?thesis
    proof (cases "0 < mi")
      case False
      with rem "1.prems" have "st' = st" "n' = n" "e = CapExhausted"
        by (simp_all add: while_loop.simps [of w h n mi st])
      with False rem show ?thesis by (intro exI [of _ 0]) simp
    next
      case mi: True
      let ?s = "loop_body w h st"
      show ?thesis
      proof (cases "solvedThisPass ?s = []")
        case True
        with rem mi "1.prems" have "st' = ?s" "n' = Suc n" "e = Stuck"
          by (simp_all add: while_loop.simps [of w h n mi st] Let_def)
        with True rem mi show ?thesis by (intro exI [of _ 1]) simp
      next
        case False
        with rem mi "1.prems" have "while_loop w h (Suc n) (mi - 1) ?s = (st', n', e)"
          by (simp add: while_loop.simps [of w h n mi st] Let_def)
        from "1.IH" [OF rem mi refl False this]
        obtain k where k: "n' = Suc n + k" "st' = (loop_body w h ^^ k) ?s"
          "int k \<le> max (mi - 1) 0"
          "\<forall>j<k. 0 < remaining ((loop_body w h ^^ j) ?s)"
          "\<forall>j<k. 0 < j \<longrightarrow> solvedThisPass ((loop_body w h ^^ j) ?s) \<noteq> []"
          "case e of
             Resolved \<Rightarrow> remaining st' \<le> 0
           | Stuck \<Rightarrow> 0 < k \<and> 0 < remaining ((loop_body w h ^^ (k - 1)) ?s) \<and> solvedThisPass st' = []
           | CapExhausted \<Rightarrow> int k = max (mi - 1) 0 \<and> 0 < remaining st'"
          by blast
        have sw: "(loop_body w h ^^ j) ?s = (loop_body w h ^^ Suc j) st" for j
          by (simp add: funpow_swap1)
        have a: "n' = n + Suc k" using k(1) by simp
        have b: "st' = (loop_body w h ^^ Suc k) st" using k(2) sw by simp
        have c: "int (Suc k) \<le> max mi 0" using k(3) mi by simp
        have d: "\<forall>j<Suc k. 0 < remaining ((loop_body w h ^^ j) st)"
        proof (intro allI impI)
          fix j assume "j < Suc k"
          show "0 < remaining ((loop_body w h ^^ j) st)"
          proof (cases j)
            case 0 then show ?thesis using rem by simp
          next
            case (Suc i)
            then have "i < k" using \<open>j < Suc k\<close> by simp
            then show ?thesis using k(4) sw Suc by metis
          qed
        qed
        have e': "\<forall>j<Suc k. 0 < j \<longrightarrow> solvedThisPass ((loop_body w h ^^ j) st) \<noteq> []"
        proof (intro allI impI)
          fix j assume j: "j < Suc k" "0 < j"
          then obtain i where i: "j = Suc i" by (cases j) simp_all
          show "solvedThisPass ((loop_body w h ^^ j) st) \<noteq> []"
          proof (cases i)
            case 0 then show ?thesis using False i by simp
          next
            case (Suc i')
            then have "i < k" "0 < i" using j i by simp_all
            then have "solvedThisPass ((loop_body w h ^^ i) ?s) \<noteq> []" using k(5) by blast
            then show ?thesis unfolding i sw .
          qed
        qed
        have f: "case e of
             Resolved \<Rightarrow> remaining st' \<le> 0
           | Stuck \<Rightarrow> 0 < Suc k \<and> 0 < remaining ((loop_body w h ^^ (Suc k - 1)) st) \<and> solvedThisPass st' = []
           | CapExhausted \<Rightarrow> int (Suc k) = max mi 0 \<and> 0 < remaining st'"
        proof (cases e)
          case Resolved then show ?thesis using k(6) by simp
        next
          case CapExhausted then show ?thesis using k(6) mi by simp
        next
          case Stuck
          then have s: "0 < k" "0 < remaining ((loop_body w h ^^ (k - 1)) ?s)" "solvedThisPass st' = []"
            using k(6) by simp_all
          have "(loop_body w h ^^ (k - 1)) ?s = (loop_body w h ^^ k) st"
            using s(1) sw [of "k - 1"] by simp
          then show ?thesis using Stuck s by simp
        qed
        from a b c d e' f show ?thesis by blast
      qed
    qed
  qed
qed

lemma process_iterate:
  "\<exists>k\<le>500. fst (process img msk) = (loop_body (width img) (height img) ^^ k) (init img msk)
           \<and> fst (snd (process img msk)) = k"
proof -
  obtain st n e where p: "process img msk = (st, n, e)"
    by (cases "process img msk") auto
  then have "while_loop (width img) (height img) 0 500 (init img msk) = (st, n, e)"
    by (simp add: process_def)
  from while_loop_iter [OF this] show ?thesis
    unfolding p by auto
qed

lemma process_no_damage:
  assumes "scan (width img) (height img) (data msk) = []"
  shows "process img msk = (init img msk, 0, Resolved)"
proof -
  from assms have "remaining (init img msk) \<le> 0" by simp
  then show ?thesis unfolding process_def by (rule while_loop_done)
qed

subsection \<open>What \<open>solve_pixel\<close> changes\<close>

lemma solve_pixel_not_solves:
  "\<not> solves w h (dat st) (mask st) p \<Longrightarrow> solve_pixel w h p st = (p, st)"
  by (auto simp: solve_pixel_def solves_def cnt_of_def split: prod.splits)

lemma solve_pixel_fields [simp]:
  "mask (snd (solve_pixel w h p st)) = mask st"
  "remaining (snd (solve_pixel w h p st)) = remaining st"
  "damagedPixels (snd (solve_pixel w h p st)) = damagedPixels st"
  "length (dat (snd (solve_pixel w h p st))) = length (dat st)"
  by (simp_all add: solve_pixel_def Let_def split: prod.splits)

lemma fst_solve_pixel:
  "fst (solve_pixel w h p st) = (if solves w h (dat st) (mask st) p then p\<lparr>solved := True\<rparr> else p)"
  by (auto simp: solve_pixel_def solves_def cnt_of_def Let_def split: prod.splits)

lemma solvedThisPass_solve_pixel:
  "solvedThisPass (snd (solve_pixel w h p st)) =
     solvedThisPass st @ (if solves w h (dat st) (mask st) p then [p\<lparr>solved := True\<rparr>] else [])"
  by (auto simp: solve_pixel_def solves_def cnt_of_def Let_def split: prod.splits)

lemma rd_dat_solve_pixel:
  "\<not> (solves w h (dat st) (mask st) p \<and> p_i p \<le> j \<and> j < p_i p + 4) \<Longrightarrow>
   rd (dat (snd (solve_pixel w h p st))) j = rd (dat st) j"
proof (cases "solves w h (dat st) (mask st) p")
  case False
  then show ?thesis by (simp add: solve_pixel_not_solves)
next
  case True
  assume "\<not> (solves w h (dat st) (mask st) p \<and> p_i p \<le> j \<and> j < p_i p + 4)"
  with True have "j \<noteq> p_i p" "j \<noteq> p_i p + 1" "j \<noteq> p_i p + 2" "j \<noteq> p_i p + 3"
    by auto
  then show ?thesis
    by (simp add: solve_pixel_def Let_def rd_wr split: prod.splits)
qed

subsection \<open>The neighbour loop\<close>

text \<open>
  The neighbour loop is the loop over the offsets that are in bounds: an offset out of
  bounds leaves the sums and the count as they are.
\<close>

lemma neighbor_out_of_bounds: "\<not> in_bounds w h p off \<Longrightarrow> neighbor w h d m p a off = a"
  by (auto simp: neighbor_def in_bounds_def Let_def split: prod.splits)

lemma foldl_filter_skip:
  "(\<And>a x. \<not> P x \<Longrightarrow> f a x = a) \<Longrightarrow> foldl f a (filter P xs) = foldl f a xs"
  by (induction xs arbitrary: a) simp_all

lemma neighbors_in_bounds:
  "neighbors w h d m p =
     foldl (neighbor w h d m p) (Some 0, Some 0, Some 0, 0) (filter (in_bounds w h p) offsets)"
  unfolding neighbors_def
  by (rule foldl_filter_skip [symmetric]) (rule neighbor_out_of_bounds)

lemma cnt_of_neighbor_le: "cnt_of (neighbor w h d m p a off) \<le> cnt_of a + 1"
  by (auto simp: neighbor_def cnt_of_def Let_def split: prod.splits)

lemma cnt_of_foldl_neighbor_le:
  "cnt_of (foldl (neighbor w h d m p) a offs) \<le> cnt_of a + length offs"
proof (induction offs arbitrary: a)
  case Nil
  show ?case by simp
next
  case (Cons off offs)
  have "cnt_of (foldl (neighbor w h d m p) (neighbor w h d m p a off) offs)
          \<le> cnt_of (neighbor w h d m p a off) + length offs"
    by (rule Cons.IH)
  also have "\<dots> \<le> cnt_of a + 1 + length offs"
    using cnt_of_neighbor_le [of w h d m p a off] by simp
  finally show ?case by simp
qed

lemma cnt_of_neighbors_le:
  "cnt_of (neighbors w h d m p) \<le> length (filter (in_bounds w h p) offsets)"
  using cnt_of_foldl_neighbor_le [of w h d m p "(Some 0, Some 0, Some 0, 0)"
      "filter (in_bounds w h p) offsets"]
  by (simp add: neighbors_in_bounds [symmetric] cnt_of_def)

lemma corner_in_bounds:
  assumes "2 \<le> w" and "2 \<le> h"
  shows "filter (in_bounds w h \<lparr>p_x = 0, p_y = 0, p_i = 0, solved = False\<rparr>) offsets
       = [(1, 0), (0, 1), (1, 1)]"
  using assms by (simp add: offsets_def in_bounds_def)

lemma neighbor_all_masked:
  assumes "\<forall>yy<h. \<forall>xx<w. isMasked m ((yy * w + xx) * 4)"
  shows "neighbor w h d m p a off = a"
proof -
  have "isMasked m ((nat ny * w + nat nx) * 4)" if "0 \<le> nx" "nx < int w" "0 \<le> ny" "ny < int h" for nx ny
    using assms that by simp
  then show ?thesis
    by (simp add: neighbor_def Let_def split: prod.splits)
qed

lemma neighbors_all_masked:
  assumes "\<forall>yy<h. \<forall>xx<w. isMasked m ((yy * w + xx) * 4)"
  shows "neighbors w h d m p = (Some 0, Some 0, Some 0, 0)"
  unfolding neighbors_def by (rule foldl_const) (rule neighbor_all_masked [OF assms])

lemma solve_pixel_all_masked:
  assumes "\<forall>yy<h. \<forall>xx<w. isMasked (mask st) ((yy * w + xx) * 4)"
  shows "solve_pixel w h p st = (p, st)"
  by (simp add: solve_pixel_def neighbors_all_masked [OF assms])

lemma for_k_all_masked:
  assumes "\<forall>yy<h. \<forall>xx<w. isMasked (mask st) ((yy * w + xx) * 4)"
  shows "for_k w h ps st = (ps, st)"
  by (induction ps) (simp_all add: solve_pixel_all_masked [OF assms])

lemma same_unmasked_refl: "same_unmasked m d d"
  by (simp add: same_unmasked_def)

lemma neighbor_cong:
  assumes "same_unmasked m d d'"
  shows "neighbor w h d' m p a off = neighbor w h d m p a off"
proof -
  define k where "k = nat (int (p_y p) + snd off) * w + nat (int (p_x p) + fst off)"
  define ni where "ni = 4 * k"
  have nieq: "(nat (int (p_y p) + snd off) * w + nat (int (p_x p) + fst off)) * 4 = ni"
    unfolding ni_def k_def by (rule mult.commute)
  have r: "rd d' (ni + c) = rd d (ni + c)" if "c < 4" "\<not> isMasked m ni" for c
    using assms that unfolding same_unmasked_def ni_def by blast
  have "rd d' ni = rd d ni \<and> rd d' (ni + 1) = rd d (ni + 1) \<and> rd d' (ni + 2) = rd d (ni + 2)"
    if "\<not> isMasked m ni"
    using r [of 0] r [of 1] r [of 2] that by simp
  then show ?thesis
    unfolding neighbor_def Let_def nieq
    by (auto split: prod.splits)
qed

lemma neighbors_cong:
  assumes "same_unmasked m d d'"
  shows "neighbors w h d' m p = neighbors w h d m p"
proof -
  have "neighbor w h d' m p = neighbor w h d m p"
    by (intro ext) (rule neighbor_cong [OF assms])
  then show ?thesis by (simp add: neighbors_def)
qed

lemma solves_cong: "same_unmasked m d d' \<Longrightarrow> solves w h d' m p = solves w h d m p"
  by (simp add: solves_def neighbors_cong)

lemma same_unmasked_solve_pixel:
  assumes s: "same_unmasked (mask st) d (dat st)"
    and p: "\<not> solved p \<longrightarrow> 4 dvd p_i p \<and> isMasked (mask st) (p_i p)"
  shows "same_unmasked (mask st) d (dat (snd (solve_pixel w h p st)))"
  unfolding same_unmasked_def
proof (intro conjI allI impI)
  show "length (dat (snd (solve_pixel w h p st))) = length d"
    using s by (simp add: same_unmasked_def)
next
  fix k c :: nat
  assume c: "c < 4" and k: "\<not> isMasked (mask st) (4 * k)"
  have "\<not> (solves w h (dat st) (mask st) p \<and> p_i p \<le> 4 * k + c \<and> 4 * k + c < p_i p + 4)"
  proof
    assume a: "solves w h (dat st) (mask st) p \<and> p_i p \<le> 4 * k + c \<and> 4 * k + c < p_i p + 4"
    then have "\<not> solved p" by (simp add: solves_def)
    with p obtain k' where k': "p_i p = 4 * k'" and mk: "isMasked (mask st) (p_i p)"
      by (auto simp: dvd_def)
    from a c k' have "k' = k" by simp
    with k k' mk show False by simp
  qed
  then have "rd (dat (snd (solve_pixel w h p st))) (4 * k + c) = rd (dat st) (4 * k + c)"
    by (rule rd_dat_solve_pixel)
  also have "\<dots> = rd d (4 * k + c)"
    using s c k by (simp add: same_unmasked_def)
  finally show "rd (dat (snd (solve_pixel w h p st))) (4 * k + c) = rd d (4 * k + c)" .
qed

subsection \<open>The loop over the records\<close>

lemma for_k_Cons_fst:
  "fst (for_k w h (p # ps) st) =
     fst (solve_pixel w h p st) # fst (for_k w h ps (snd (solve_pixel w h p st)))"
  by (simp add: case_prod_beta)

lemma for_k_Cons_snd:
  "snd (for_k w h (p # ps) st) = snd (for_k w h ps (snd (solve_pixel w h p st)))"
  by (simp add: case_prod_beta)

declare for_k.simps(2) [simp del]

lemma for_k_fields [simp]:
  "mask (snd (for_k w h ps st)) = mask st"
  "remaining (snd (for_k w h ps st)) = remaining st"
  "damagedPixels (snd (for_k w h ps st)) = damagedPixels st"
  "length (dat (snd (for_k w h ps st))) = length (dat st)"
  by (induction ps arbitrary: st) (simp_all add: for_k_Cons_snd)

text \<open>
  Every record of the pass is decided on the arrays as they were when the pass began:
  whether a record is filled depends on \<open>d\<close> and \<open>m\<close> alone.
\<close>

lemma for_k_snapshot:
  assumes "same_unmasked m d (dat st)" and "mask st = m"
    and "\<forall>p\<in>set ps. \<not> solved p \<longrightarrow> 4 dvd p_i p \<and> isMasked m (p_i p)"
  shows "fst (for_k w h ps st) = map (\<lambda>p. if solves w h d m p then p\<lparr>solved := True\<rparr> else p) ps
       \<and> solvedThisPass (snd (for_k w h ps st)) =
           solvedThisPass st @ map (\<lambda>p. p\<lparr>solved := True\<rparr>) (filter (solves w h d m) ps)
       \<and> same_unmasked m d (dat (snd (for_k w h ps st)))"
  using assms
proof (induction ps arbitrary: st)
  case Nil
  then show ?case by simp
next
  case (Cons p ps)
  let ?st1 = "snd (solve_pixel w h p st)"
  have sv: "solves w h (dat st) (mask st) p = solves w h d m p"
    using Cons.prems(1,2) by (simp add: solves_cong)
  have s1: "same_unmasked m d (dat ?st1)"
    using same_unmasked_solve_pixel [of st d p w h] Cons.prems by simp
  have m1: "mask ?st1 = m" using Cons.prems(2) by simp
  have r: "\<forall>p\<in>set ps. \<not> solved p \<longrightarrow> 4 dvd p_i p \<and> isMasked m (p_i p)"
    using Cons.prems(3) by simp
  note ih = Cons.IH [OF s1 m1 r]
  show ?case
    using ih by (simp add: for_k_Cons_fst for_k_Cons_snd fst_solve_pixel solvedThisPass_solve_pixel sv)
qed

lemma solvedThisPass_for_k_mono:
  "set (solvedThisPass st) \<subseteq> set (solvedThisPass (snd (for_k w h ps st)))"
proof (induction ps arbitrary: st)
  case Nil
  show ?case by simp
next
  case (Cons p ps)
  have "set (solvedThisPass st) \<subseteq> set (solvedThisPass (snd (solve_pixel w h p st)))"
    by (simp add: solvedThisPass_solve_pixel)
  also have "\<dots> \<subseteq> set (solvedThisPass (snd (for_k w h ps (snd (solve_pixel w h p st)))))"
    by (rule Cons.IH)
  finally show ?case by (simp add: for_k_Cons_snd)
qed

lemma rd_dat_for_k_solved:
  "rd (dat (snd (for_k w h ps st))) j \<noteq> rd (dat st) j \<Longrightarrow>
   \<exists>sp\<in>set (solvedThisPass (snd (for_k w h ps st))). p_i sp \<le> j \<and> j < p_i sp + 4"
proof (induction ps arbitrary: st)
  case Nil
  then show ?case by simp
next
  case (Cons p ps)
  let ?st1 = "snd (solve_pixel w h p st)"
  show ?case
  proof (cases "rd (dat ?st1) j = rd (dat st) j")
    case True
    with Cons.prems have "rd (dat (snd (for_k w h ps ?st1))) j \<noteq> rd (dat ?st1) j"
      by (simp add: for_k_Cons_snd)
    from Cons.IH [OF this] show ?thesis by (simp add: for_k_Cons_snd)
  next
    case False
    then have s: "solves w h (dat st) (mask st) p" "p_i p \<le> j" "j < p_i p + 4"
      using rd_dat_solve_pixel [of w h st p j] by blast+
    then have "p\<lparr>solved := True\<rparr> \<in> set (solvedThisPass ?st1)"
      by (simp add: solvedThisPass_solve_pixel)
    then have "p\<lparr>solved := True\<rparr> \<in> set (solvedThisPass (snd (for_k w h ps ?st1)))"
      using solvedThisPass_for_k_mono by blast
    then show ?thesis using s(2,3)
      by (intro bexI [of _ "p\<lparr>solved := True\<rparr>"]) (simp_all add: for_k_Cons_snd)
  qed
qed

subsection \<open>The pass\<close>

lemma pass_fields [simp]:
  "mask (pass w h st) = mask st"
  "remaining (pass w h st) = remaining st"
  "length (dat (pass w h st)) = length (dat st)"
  "damagedPixels (pass w h st) = fst (for_k w h (damagedPixels st) (st\<lparr>solvedThisPass := []\<rparr>))"
  by (simp_all add: pass_def case_prod_beta)

lemma dat_pass: "dat (pass w h st) = dat (snd (for_k w h (damagedPixels st) (st\<lparr>solvedThisPass := []\<rparr>)))"
  by (simp add: pass_def case_prod_beta)

lemma solvedThisPass_pass:
  "solvedThisPass (pass w h st) =
     solvedThisPass (snd (for_k w h (damagedPixels st) (st\<lparr>solvedThisPass := []\<rparr>)))"
  by (simp add: pass_def case_prod_beta)

lemma pass_snapshot:
  assumes "\<forall>p\<in>set (damagedPixels st). \<not> solved p \<longrightarrow> 4 dvd p_i p \<and> isMasked (mask st) (p_i p)"
  shows "damagedPixels (pass w h st) =
           map (\<lambda>p. if solves w h (dat st) (mask st) p then p\<lparr>solved := True\<rparr> else p) (damagedPixels st)"
    and "solvedThisPass (pass w h st) =
           map (\<lambda>p. p\<lparr>solved := True\<rparr>) (filter (solves w h (dat st) (mask st)) (damagedPixels st))"
    and "same_unmasked (mask st) (dat st) (dat (pass w h st))"
proof -
  let ?st0 = "st\<lparr>solvedThisPass := []\<rparr>"
  have a: "same_unmasked (mask st) (dat st) (dat ?st0)" by (simp add: same_unmasked_refl)
  have b: "mask ?st0 = mask st" by simp
  note s = for_k_snapshot [OF a b assms, of w h]
  show "damagedPixels (pass w h st) =
           map (\<lambda>p. if solves w h (dat st) (mask st) p then p\<lparr>solved := True\<rparr> else p) (damagedPixels st)"
    using s by simp
  show "solvedThisPass (pass w h st) =
           map (\<lambda>p. p\<lparr>solved := True\<rparr>) (filter (solves w h (dat st) (mask st)) (damagedPixels st))"
    using s by (simp add: solvedThisPass_pass)
  show "same_unmasked (mask st) (dat st) (dat (pass w h st))"
    using s by (simp add: dat_pass)
qed

lemma rd_dat_pass_solved:
  assumes "rd (dat (pass w h st)) j \<noteq> rd (dat st) j"
  shows "\<exists>sp\<in>set (solvedThisPass (pass w h st)). p_i sp \<le> j \<and> j < p_i sp + 4"
proof -
  have "rd (dat (snd (for_k w h (damagedPixels st) (st\<lparr>solvedThisPass := []\<rparr>)))) j
          \<noteq> rd (dat (st\<lparr>solvedThisPass := []\<rparr>)) j"
    using assms by (simp add: dat_pass)
  from rd_dat_for_k_solved [OF this] show ?thesis by (simp add: solvedThisPass_pass)
qed

subsection \<open>The clearing of the mask\<close>

lemma unmask_fields [simp]:
  "dat (unmask st sp) = dat st"
  "damagedPixels (unmask st sp) = damagedPixels st"
  "solvedThisPass (unmask st sp) = solvedThisPass st"
  "length (mask (unmask st sp)) = length (mask st)"
  "remaining (unmask st sp) = remaining st - 1"
  by (simp_all add: unmask_def)

lemma foldl_unmask_fields [simp]:
  "dat (foldl unmask st sps) = dat st"
  "damagedPixels (foldl unmask st sps) = damagedPixels st"
  "solvedThisPass (foldl unmask st sps) = solvedThisPass st"
  "length (mask (foldl unmask st sps)) = length (mask st)"
  "remaining (foldl unmask st sps) = remaining st - int (length sps)"
  by (induction sps arbitrary: st) simp_all

lemma rd_mask_foldl_unmask:
  "rd (mask (foldl unmask st sps)) j =
     (if j < length (mask st) \<and> j \<in> (\<lambda>sp. p_i sp + 3) ` set sps then Some 0 else rd (mask st) j)"
proof (induction sps arbitrary: st)
  case Nil
  then show ?case by simp
next
  case (Cons sp sps)
  have "rd (mask (unmask st sp)) j = (if j = p_i sp + 3 \<and> j < length (mask st) then Some 0 else rd (mask st) j)"
    by (simp add: unmask_def rd_wr)
  then show ?case by (auto simp: Cons.IH)
qed

lemma commit_fields [simp]:
  "dat (commit st) = dat st"
  "damagedPixels (commit st) = damagedPixels st"
  "solvedThisPass (commit st) = solvedThisPass st"
  "length (mask (commit st)) = length (mask st)"
  "remaining (commit st) = remaining st - int (length (solvedThisPass st))"
  by (simp_all add: commit_def)

lemma rd_mask_commit:
  "rd (mask (commit st)) j =
     (if j < length (mask st) \<and> j \<in> (\<lambda>sp. p_i sp + 3) ` set (solvedThisPass st) then Some 0
      else rd (mask st) j)"
  by (simp add: commit_def rd_mask_foldl_unmask)

lemma loop_body_lengths [simp]:
  "length (dat (loop_body w h st)) = length (dat st)"
  "length (mask (loop_body w h st)) = length (mask st)"
  by (simp_all add: loop_body_def)

lemma funpow_loop_body_lengths [simp]:
  "length (dat ((loop_body w h ^^ n) st)) = length (dat st)"
  "length (mask ((loop_body w h ^^ n) st)) = length (mask st)"
  by (induction n) simp_all

lemma process_lengths:
  "length (dat (fst (process img msk))) = length (data img)"
  "length (mask (fst (process img msk))) = length (data msk)"
proof -
  obtain k where k: "fst (process img msk) = (loop_body (width img) (height img) ^^ k) (init img msk)"
    using process_iterate by blast
  show "length (dat (fst (process img msk))) = length (data img)"
    "length (mask (fst (process img msk))) = length (data msk)"
    unfolding k by simp_all
qed

subsection \<open>The invariant of the pass loop\<close>

lemma pass_invD:
  assumes "pass_inv w h d0 m0 st"
  shows "map (\<lambda>p. p\<lparr>solved := False\<rparr>) (damagedPixels st) = scan w h m0"
    and "length (dat st) = length d0"
    and "\<And>j. rd (mask st) j =
               (if \<exists>p\<in>set (damagedPixels st). solved p \<and> j = p_i p + 3 then Some 0 else rd m0 j)"
    and "\<And>j. rd (dat st) j \<noteq> rd d0 j \<Longrightarrow>
               \<exists>p\<in>set (damagedPixels st). solved p \<and> p_i p \<le> j \<and> j < p_i p + 4"
    and "remaining st = int (length (filter (\<lambda>p. \<not> solved p) (damagedPixels st)))"
  using assms unfolding pass_inv_def by blast+

lemma pass_inv_p_i:
  assumes "pass_inv w h d0 m0 st"
  shows "map p_i (damagedPixels st) = map p_i (scan w h m0)"
proof -
  have "map p_i (map (\<lambda>p. p\<lparr>solved := False\<rparr>) (damagedPixels st)) = map p_i (scan w h m0)"
    by (simp only: pass_invD(1) [OF assms])
  then show ?thesis by (simp add: comp_def)
qed

lemma pass_inv_distinct:
  assumes "pass_inv w h d0 m0 st"
  shows "distinct (map p_i (damagedPixels st))"
  using distinct_scan [of w h m0] by (simp add: pass_inv_p_i [OF assms])

lemma pass_inv_p_i_inj:
  assumes "pass_inv w h d0 m0 st" and "p \<in> set (damagedPixels st)" and "q \<in> set (damagedPixels st)"
    and "p_i p = p_i q"
  shows "p = q"
  using pass_inv_distinct [OF assms(1)] assms(2,3,4)
  by (meson distinct_map inj_onD)

lemma pass_inv_record:
  assumes "pass_inv w h d0 m0 st" and "p \<in> set (damagedPixels st)"
  shows "4 dvd p_i p" and "isMasked m0 (p_i p)" and "p_x p < w" and "p_y p < h"
    and "p_i p = (p_y p * w + p_x p) * 4"
proof -
  have "p\<lparr>solved := False\<rparr> \<in> set (map (\<lambda>p. p\<lparr>solved := False\<rparr>) (damagedPixels st))"
    using assms(2) by simp
  then have m: "p\<lparr>solved := False\<rparr> \<in> set (scan w h m0)"
    by (simp only: pass_invD(1) [OF assms(1)])
  from scan_records [OF m]
  show "4 dvd p_i p" and "isMasked m0 (p_i p)" and "p_x p < w" and "p_y p < h"
    and "p_i p = (p_y p * w + p_x p) * 4"
    by simp_all
qed

lemma pass_inv_solved_cleared:
  assumes "pass_inv w h d0 m0 st" and "p \<in> set (damagedPixels st)" and "solved p"
  shows "rd (mask st) (p_i p + 3) = Some 0"
proof -
  have "\<exists>q\<in>set (damagedPixels st). solved q \<and> p_i p + 3 = p_i q + 3"
    using assms(2,3) by blast
  then show ?thesis by (simp only: pass_invD(3) [OF assms(1)] if_True)
qed

lemma pass_inv_unsolved_masked:
  assumes "pass_inv w h d0 m0 st" and "p \<in> set (damagedPixels st)" and "\<not> solved p"
  shows "isMasked (mask st) (p_i p)"
proof -
  have "\<not> (\<exists>q\<in>set (damagedPixels st). solved q \<and> p_i p + 3 = p_i q + 3)"
  proof
    assume "\<exists>q\<in>set (damagedPixels st). solved q \<and> p_i p + 3 = p_i q + 3"
    then obtain q where q: "q \<in> set (damagedPixels st)" "solved q" "p_i p = p_i q" by auto
    from pass_inv_p_i_inj [OF assms(1,2) q(1,3)] q(2) assms(3) show False by simp
  qed
  then have "rd (mask st) (p_i p + 3) = rd m0 (p_i p + 3)"
    by (simp only: pass_invD(3) [OF assms(1)] if_False)
  then have "isMasked (mask st) (p_i p) = isMasked m0 (p_i p)" by (rule isMasked_cong)
  then show ?thesis using pass_inv_record(2) [OF assms(1,2)] by simp
qed

lemma pass_inv_snapshot_hyp:
  assumes "pass_inv w h d0 m0 st"
  shows "\<forall>p\<in>set (damagedPixels st). \<not> solved p \<longrightarrow> 4 dvd p_i p \<and> isMasked (mask st) (p_i p)"
  using pass_inv_record(1) [OF assms] pass_inv_unsolved_masked [OF assms] by blast

lemma loop_body_inv:
  assumes i: "pass_inv w h d0 m0 st"
  defines "S \<equiv> solves w h (dat st) (mask st)"
  shows "damagedPixels (loop_body w h st) =
           map (\<lambda>p. if S p then p\<lparr>solved := True\<rparr> else p) (damagedPixels st)"
    and "solvedThisPass (loop_body w h st) = map (\<lambda>p. p\<lparr>solved := True\<rparr>) (filter S (damagedPixels st))"
    and "dat (loop_body w h st) = dat (pass w h st)"
    and "same_unmasked (mask st) (dat st) (dat (loop_body w h st))"
    and "\<And>j. rd (mask (loop_body w h st)) j =
           (if \<exists>p\<in>set (damagedPixels st). S p \<and> j = p_i p + 3 then Some 0 else rd (mask st) j)"
    and "remaining (loop_body w h st) = remaining st - int (length (filter S (damagedPixels st)))"
proof -
  note hyp = pass_inv_snapshot_hyp [OF i]
  note ps = pass_snapshot [OF hyp, of w h, folded S_def]
  show "damagedPixels (loop_body w h st) =
           map (\<lambda>p. if S p then p\<lparr>solved := True\<rparr> else p) (damagedPixels st)"
    by (simp add: loop_body_def ps(1) del: pass_fields(4))
  show sps: "solvedThisPass (loop_body w h st) = map (\<lambda>p. p\<lparr>solved := True\<rparr>) (filter S (damagedPixels st))"
    by (simp add: loop_body_def ps(2))
  show "dat (loop_body w h st) = dat (pass w h st)"
    by (simp add: loop_body_def)
  show "same_unmasked (mask st) (dat st) (dat (loop_body w h st))"
    using ps(3) by (simp add: loop_body_def)
  show "remaining (loop_body w h st) = remaining st - int (length (filter S (damagedPixels st)))"
    by (simp add: loop_body_def ps(2))
  show "rd (mask (loop_body w h st)) j =
           (if \<exists>p\<in>set (damagedPixels st). S p \<and> j = p_i p + 3 then Some 0 else rd (mask st) j)" for j
  proof (cases "\<exists>p\<in>set (damagedPixels st). S p \<and> j = p_i p + 3")
    case True
    then obtain p where p: "p \<in> set (damagedPixels st)" "S p" "j = p_i p + 3" by blast
    then have "\<not> solved p" by (simp add: S_def solves_def)
    from pass_inv_unsolved_masked [OF i p(1) this] have "j < length (mask st)"
      unfolding p(3) by (auto simp: isMasked_rd rd_def split: if_splits)
    moreover have "j \<in> (\<lambda>sp. p_i sp + 3) ` set (map (\<lambda>p. p\<lparr>solved := True\<rparr>) (filter S (damagedPixels st)))"
      using p by (intro image_eqI [where x = "p\<lparr>solved := True\<rparr>"]) simp_all
    ultimately show ?thesis using True
      by (simp add: loop_body_def rd_mask_commit ps(2))
  next
    case False
    then have "j \<notin> (\<lambda>sp. p_i sp + 3) ` set (map (\<lambda>p. p\<lparr>solved := True\<rparr>) (filter S (damagedPixels st)))"
      by force
    then have "rd (mask (loop_body w h st)) j = rd (mask st) j"
      by (simp add: loop_body_def rd_mask_commit ps(2))
    with False show ?thesis by auto
  qed
qed

lemma pass_inv_loop_body:
  assumes i: "pass_inv w h d0 m0 st"
  shows "pass_inv w h d0 m0 (loop_body w h st)"
proof -
  define S where "S = solves w h (dat st) (mask st)"
  define f where "f = (\<lambda>p. if S p then p\<lparr>solved := True\<rparr> else p)"
  let ?ps = "damagedPixels st"
  note lb = loop_body_inv [OF i, folded S_def]
  have ps': "damagedPixels (loop_body w h st) = map f ?ps"
    by (simp add: lb(1) f_def)
  have Su: "\<not> solved p" if "S p" for p using that by (simp add: S_def solves_def)
  have fs: "solved (f p) \<longleftrightarrow> solved p \<or> S p" for p by (simp add: f_def)
  have fi: "p_i (f p) = p_i p" for p by (simp add: f_def)
  have a: "map (\<lambda>p. p\<lparr>solved := False\<rparr>) (damagedPixels (loop_body w h st)) = scan w h m0"
  proof -
    have "(\<lambda>p. p\<lparr>solved := False\<rparr>) \<circ> f = (\<lambda>p. p\<lparr>solved := False\<rparr>)"
      by (auto simp: f_def)
    then show ?thesis by (simp add: ps' pass_invD(1) [OF i])
  qed
  have b: "length (dat (loop_body w h st)) = length d0"
    by (simp add: pass_invD(2) [OF i])
  have c: "rd (mask (loop_body w h st)) j =
      (if \<exists>p\<in>set (damagedPixels (loop_body w h st)). solved p \<and> j = p_i p + 3 then Some 0
       else rd m0 j)" for j
  proof -
    have e: "(\<exists>p\<in>set (map f ?ps). solved p \<and> j = p_i p + 3)
         \<longleftrightarrow> (\<exists>p\<in>set ?ps. S p \<and> j = p_i p + 3) \<or> (\<exists>p\<in>set ?ps. solved p \<and> j = p_i p + 3)"
      by (auto simp: fs fi)
    show ?thesis
      unfolding ps' e lb(5) pass_invD(3) [OF i] by auto
  qed
  have d: "\<exists>p\<in>set (damagedPixels (loop_body w h st)). solved p \<and> p_i p \<le> j \<and> j < p_i p + 4"
    if "rd (dat (loop_body w h st)) j \<noteq> rd d0 j" for j
  proof (cases "rd (dat (pass w h st)) j = rd (dat st) j")
    case True
    with that have "rd (dat st) j \<noteq> rd d0 j" by (simp add: lb(3))
    from pass_invD(4) [OF i this] obtain p where
      p: "p \<in> set ?ps" "solved p" "p_i p \<le> j" "j < p_i p + 4" by blast
    then have "f p \<in> set (map f ?ps)" "solved (f p)" by (simp_all add: fs)
    with p(3,4) show ?thesis unfolding ps' by (intro bexI [of _ "f p"]) (simp_all add: fi)
  next
    case False
    from rd_dat_pass_solved [OF this] obtain sp where
      sp: "sp \<in> set (solvedThisPass (pass w h st))" "p_i sp \<le> j" "j < p_i sp + 4" by blast
    have "solvedThisPass (pass w h st) = solvedThisPass (loop_body w h st)"
      by (simp add: loop_body_def)
    with sp(1) obtain p where p: "p \<in> set ?ps" "S p" "sp = p\<lparr>solved := True\<rparr>"
      by (auto simp: lb(2))
    then have "f p \<in> set (map f ?ps)" "solved (f p)" by (simp_all add: fs)
    moreover have "p_i p = p_i sp" using p(3) by simp
    ultimately show ?thesis using sp(2,3) unfolding ps'
      by (intro bexI [of _ "f p"]) (simp_all add: fi)
  qed
  have e: "remaining (loop_body w h st)
      = int (length (filter (\<lambda>p. \<not> solved p) (damagedPixels (loop_body w h st))))"
  proof -
    have "length (filter (\<lambda>p. \<not> solved p) ?ps)
        = length (filter S ?ps) + length (filter (\<lambda>p. \<not> solved p \<and> \<not> S p) ?ps)"
      by (rule length_filter_split) (simp add: Su)
    moreover have "filter (\<lambda>p. \<not> solved p) (map f ?ps) = map f (filter (\<lambda>p. \<not> solved p \<and> \<not> S p) ?ps)"
      by (simp add: filter_map comp_def fs)
    ultimately show ?thesis
      by (simp add: lb(6) pass_invD(5) [OF i] ps')
  qed
  show ?thesis
    unfolding pass_inv_def using a b c d e by blast
qed

lemma pass_inv_init: "pass_inv (width img) (height img) (data img) (data msk) (init img msk)"
proof -
  have u: "\<not> solved p" if "p \<in> set (scan (width img) (height img) (data msk))" for p
    using that by (rule scan_records(1))
  have "map (\<lambda>p. p\<lparr>solved := False\<rparr>) (scan (width img) (height img) (data msk))
      = scan (width img) (height img) (data msk)"
    by (rule map_idI) (simp add: u)
  moreover have "filter (\<lambda>p. \<not> solved p) (scan (width img) (height img) (data msk))
      = scan (width img) (height img) (data msk)"
    by (simp add: u)
  ultimately show ?thesis
    unfolding pass_inv_def using u by auto
qed

lemma pass_inv_funpow:
  "pass_inv (width img) (height img) (data img) (data msk)
     ((loop_body (width img) (height img) ^^ n) (init img msk))"
  by (induction n) (simp_all add: pass_inv_init pass_inv_loop_body)

lemma process_inv:
  "pass_inv (width img) (height img) (data img) (data msk) (fst (process img msk))"
proof -
  obtain k where "fst (process img msk) = (loop_body (width img) (height img) ^^ k) (init img msk)"
    using process_iterate by blast
  then show ?thesis by (simp only: pass_inv_funpow)
qed

section \<open>Properties\<close>

subsection \<open>Invalid input (C1)\<close>

text \<open>
  C1, as the code has it: \<^verbatim>\<open>process\<close> checks nothing and does not fail. The width and
  height of the mask object are never read; the loop returns after at most 500 passes on
  every input, also when the arrays are shorter than \<open>width * height * 4\<close>; both arrays
  keep their lengths. A mask alpha read past the end of the mask array is \<^verbatim>\<open>undefined\<close>,
  hence not damaged: the alpha index \<open>p_i p + 3\<close> of every record of the scan lies inside
  the mask array, and a pixel whose alpha index lies past its end has no record. When the
  scan finds no damaged pixel neither array is changed.
\<close>

theorem C1_no_validation:
  "process img (msk\<lparr>width := mw, height := mh\<rparr>) = process img msk
   \<and> fst (snd (process img msk)) \<le> 500
   \<and> length (dat (fst (process img msk))) = length (data img)
   \<and> length (mask (fst (process img msk))) = length (data msk)
   \<and> (\<forall>p\<in>set (scan (width img) (height img) (data msk)). p_i p + 3 < length (data msk))
   \<and> (\<forall>yy<height img. \<forall>xx<width img.
         length (data msk) \<le> (yy * width img + xx) * 4 + 3 \<longrightarrow>
         \<not> isMasked (data msk) ((yy * width img + xx) * 4)
         \<and> (yy * width img + xx) * 4 \<notin> p_i ` set (scan (width img) (height img) (data msk)))
   \<and> (scan (width img) (height img) (data msk) = [] \<longrightarrow>
        dat (fst (process img msk)) = data img \<and> mask (fst (process img msk)) = data msk)"
proof -
  have a: "process img (msk\<lparr>width := mw, height := mh\<rparr>) = process img msk"
    by (simp add: process_def init_def)
  obtain k where k: "k \<le> 500"
      "fst (process img msk) = (loop_body (width img) (height img) ^^ k) (init img msk)"
      "fst (snd (process img msk)) = k"
    using process_iterate by blast
  have b: "length (dat (fst (process img msk))) = length (data img)"
    "length (mask (fst (process img msk))) = length (data msk)"
    unfolding k(2) by simp_all
  have r: "j + 3 < length (data msk)" if "isMasked (data msk) j" for j
    using that by (auto simp: isMasked_def rd_def split: option.splits if_splits)
  have s: "p_i p + 3 < length (data msk)"
    if "p \<in> set (scan (width img) (height img) (data msk))" for p
    using scan_records(6) [OF that] by (rule r)
  have u: "\<not> isMasked (data msk) j \<and> j \<notin> p_i ` set (scan (width img) (height img) (data msk))"
    if "length (data msk) \<le> j + 3" for j
    using that r [of j] s by fastforce
  have c: "dat (fst (process img msk)) = data img \<and> mask (fst (process img msk)) = data msk"
    if "scan (width img) (height img) (data msk) = []"
  proof -
    from that have "remaining (init img msk) \<le> 0" by simp
    then have "process img msk = (init img msk, 0, Resolved)"
      unfolding process_def by (rule while_loop_done)
    then show ?thesis by simp
  qed
  from a k(1,3) b s u c show ?thesis by simp
qed

theorem C1_witness:
  "(width msk_1x1_clear \<noteq> width img_2x1
    \<and> length (data msk_1x1_clear) < width img_2x1 * height img_2x1 * 4
    \<and> scan (width img_2x1) (height img_2x1) (data msk_1x1_clear) = [])
   \<and> process img_2x1 (msk_1x1_clear\<lparr>width := 2, height := 1\<rparr>) = process img_2x1 msk_1x1_clear
   \<and> fst (snd (process img_2x1 msk_1x1_clear)) \<le> 500
   \<and> length (dat (fst (process img_2x1 msk_1x1_clear))) = length (data img_2x1)
   \<and> length (mask (fst (process img_2x1 msk_1x1_clear))) = length (data msk_1x1_clear)
   \<and> dat (fst (process img_2x1 msk_1x1_clear)) = data img_2x1
   \<and> mask (fst (process img_2x1 msk_1x1_clear)) = data msk_1x1_clear
   \<and> (scan (width img_2x1) (height img_2x1) (data msk_1x1)
         = [\<lparr>p_x = 0, p_y = 0, p_i = 0, solved = False\<rparr>]
       \<and> \<lparr>p_x = 0, p_y = 0, p_i = 0, solved = False\<rparr>
           \<in> set (scan (width img_2x1) (height img_2x1) (data msk_1x1)))
   \<and> p_i \<lparr>p_x = 0, p_y = 0, p_i = 0, solved = False\<rparr> + 3 < length (data msk_1x1)
   \<and> (0 < height img_2x1 \<and> 1 < width img_2x1
       \<and> length (data msk_1x1) \<le> (0 * width img_2x1 + 1) * 4 + 3)
   \<and> \<not> isMasked (data msk_1x1) ((0 * width img_2x1 + 1) * 4)
   \<and> (0 * width img_2x1 + 1) * 4 \<notin> p_i ` set (scan (width img_2x1) (height img_2x1) (data msk_1x1))"
proof -
  have h: "width msk_1x1_clear \<noteq> width img_2x1"
    "length (data msk_1x1_clear) < width img_2x1 * height img_2x1 * 4"
    "scan (width img_2x1) (height img_2x1) (data msk_1x1_clear) = []"
    by code_simp+
  have g: "scan (width img_2x1) (height img_2x1) (data msk_1x1)
         = [\<lparr>p_x = 0, p_y = 0, p_i = 0, solved = False\<rparr>]"
    "0 < height img_2x1" "1 < width img_2x1"
    "length (data msk_1x1) \<le> (0 * width img_2x1 + 1) * 4 + 3"
    by code_simp+
  have m: "\<lparr>p_x = 0, p_y = 0, p_i = 0, solved = False\<rparr>
           \<in> set (scan (width img_2x1) (height img_2x1) (data msk_1x1))"
    by (simp only: g(1) list.set_intros)
  note t1 = C1_no_validation [where img = img_2x1 and msk = msk_1x1_clear and mw = 2 and mh = 1]
  note t2 = C1_no_validation [where img = img_2x1 and msk = msk_1x1 and mw = 2 and mh = 1]
  from t2 m have i: "p_i \<lparr>p_x = 0, p_y = 0, p_i = 0, solved = False\<rparr> + 3 < length (data msk_1x1)"
    by blast
  from t2 g(2,3,4) have o: "\<not> isMasked (data msk_1x1) ((0 * width img_2x1 + 1) * 4)
      \<and> (0 * width img_2x1 + 1) * 4 \<notin> p_i ` set (scan (width img_2x1) (height img_2x1) (data msk_1x1))"
    by blast
  from t1 h g m i o show ?thesis by blast
qed

text \<open>
  A 2 by 1 image with a 1 by 1 mask: the dimensions differ and the mask array is shorter
  than \<open>width * height * 4\<close>, yet \<^verbatim>\<open>process\<close> returns after one pass with both arrays
  changed.
\<close>

theorem C1_counterexample:
  "width msk_1x1 \<noteq> width img_2x1
   \<and> length (data msk_1x1) < width img_2x1 * height img_2x1 * 4
   \<and> process img_2x1 msk_1x1 =
       (\<lparr>dat = [50, 60, 70, 255, 50, 60, 70, 80], mask = [0, 0, 0, 0],
         damagedPixels = [\<lparr>p_x = 0, p_y = 0, p_i = 0, solved = True\<rparr>],
         solvedThisPass = [\<lparr>p_x = 0, p_y = 0, p_i = 0, solved = True\<rparr>],
         remaining = 0\<rparr>, 1, Resolved)
   \<and> dat (fst (process img_2x1 msk_1x1)) \<noteq> data img_2x1
   \<and> mask (fst (process img_2x1 msk_1x1)) \<noteq> data msk_1x1"
  by code_simp

subsection \<open>A single damaged pixel in a 3 by 3 image (C2)\<close>

lemma C2_aux:
  fixes d m :: "byte list"
  assumes ld: "length d = 36" and lm: "length m = 36"
    and c: "0 < m ! 19"
    and z: "m ! 3 = 0" "m ! 7 = 0" "m ! 11 = 0" "m ! 15 = 0" "m ! 23 = 0" "m ! 27 = 0" "m ! 31 = 0" "m ! 35 = 0"
  shows "scan 3 3 m = [\<lparr>p_x = 1, p_y = 1, p_i = 16, solved = False\<rparr>]"
    and "neighbors 3 3 d m \<lparr>p_x = 1, p_y = 1, p_i = 16, solved = False\<rparr> =
       (Some (unat (d ! 0) + unat (d ! 4) + unat (d ! 8) + unat (d ! 12) + unat (d ! 20) + unat (d ! 24) + unat (d ! 28) + unat (d ! 32)),
        Some (unat (d ! 1) + unat (d ! 5) + unat (d ! 9) + unat (d ! 13) + unat (d ! 21) + unat (d ! 25) + unat (d ! 29) + unat (d ! 33)),
        Some (unat (d ! 2) + unat (d ! 6) + unat (d ! 10) + unat (d ! 14) + unat (d ! 22) + unat (d ! 26) + unat (d ! 30) + unat (d ! 34)), 8)"
proof -
  show "scan 3 3 m = [\<lparr>p_x = 1, p_y = 1, p_i = 16, solved = False\<rparr>]"
    using lm c z by (simp add: scan_def scan_pixel_def isMasked_def rd_def upt_3)
  show "neighbors 3 3 d m \<lparr>p_x = 1, p_y = 1, p_i = 16, solved = False\<rparr> =
       (Some (unat (d ! 0) + unat (d ! 4) + unat (d ! 8) + unat (d ! 12) + unat (d ! 20) + unat (d ! 24) + unat (d ! 28) + unat (d ! 32)),
        Some (unat (d ! 1) + unat (d ! 5) + unat (d ! 9) + unat (d ! 13) + unat (d ! 21) + unat (d ! 25) + unat (d ! 29) + unat (d ! 33)),
        Some (unat (d ! 2) + unat (d ! 6) + unat (d ! 10) + unat (d ! 14) + unat (d ! 22) + unat (d ! 26) + unat (d ! 30) + unat (d ! 34)), 8)"
    using ld lm c z by (simp add: neighbors_def neighbor_def offsets_def isMasked_def rd_def acc_add_def
        flip: numeral_2_eq_2)
qed

text \<open>
  C2, as the code has it: in a 3 by 3 image whose centre pixel alone is damaged, the centre's red,
  green and blue become the sum of the eight neighbours' channel divided by 8 and rounded
  to the nearest integer, a tie going to the even one (\<open>round_half_even\<close>, see
  \<open>round_half_even_nearest\<close>); its alpha becomes 255; one pass is run and \<open>remaining\<close>
  is 0 after it.
\<close>

theorem C2_center_pixel:
  assumes "width img = 3" and "height img = 3"
    and "length (data img) = 36" and "length (data msk) = 36"
    and "0 < data msk ! 19"
    and "\<forall>k<9. k \<noteq> 4 \<longrightarrow> data msk ! (4 * k + 3) = 0"
  shows "let d = data img; st = fst (process img msk);
             total = (\<lambda>c. unat (d ! c) + unat (d ! (4 + c)) + unat (d ! (8 + c))
                        + unat (d ! (12 + c)) + unat (d ! (20 + c)) + unat (d ! (24 + c))
                        + unat (d ! (28 + c)) + unat (d ! (32 + c)))
         in unat (dat st ! 16) = round_half_even (total 0) 8
          \<and> unat (dat st ! 17) = round_half_even (total 1) 8
          \<and> unat (dat st ! 18) = round_half_even (total 2) 8
          \<and> dat st ! 19 = 255
          \<and> remaining st = 0
          \<and> snd (process img msk) = (1, Resolved)"
proof -
  let ?d = "data img" and ?m = "data msk"
  let ?p = "\<lparr>p_x = 1, p_y = 1, p_i = 16, solved = False\<rparr>"
  let ?r = "unat (?d ! 0) + unat (?d ! 4) + unat (?d ! 8) + unat (?d ! 12) + unat (?d ! 20) + unat (?d ! 24) + unat (?d ! 28) + unat (?d ! 32)"
  let ?g = "unat (?d ! 1) + unat (?d ! 5) + unat (?d ! 9) + unat (?d ! 13) + unat (?d ! 21) + unat (?d ! 25) + unat (?d ! 29) + unat (?d ! 33)"
  let ?b = "unat (?d ! 2) + unat (?d ! 6) + unat (?d ! 10) + unat (?d ! 14) + unat (?d ! 22) + unat (?d ! 26) + unat (?d ! 30) + unat (?d ! 34)"
  let ?d' = "?d[16 := ToUint8Clamp_div (Some ?r) 8, 17 := ToUint8Clamp_div (Some ?g) 8,
               18 := ToUint8Clamp_div (Some ?b) 8, 19 := 255]"
  let ?st' = "\<lparr>dat = ?d', mask = ?m[19 := 0], damagedPixels = [?p\<lparr>solved := True\<rparr>],
               solvedThisPass = [?p\<lparr>solved := True\<rparr>], remaining = 0\<rparr>"
  have z: "?m ! 3 = 0" "?m ! 7 = 0" "?m ! 11 = 0" "?m ! 15 = 0" "?m ! 23 = 0" "?m ! 27 = 0"
      "?m ! 31 = 0" "?m ! 35 = 0"
    using assms(6) [rule_format, of 0] assms(6) [rule_format, of 1] assms(6) [rule_format, of 2]
      assms(6) [rule_format, of 3] assms(6) [rule_format, of 5] assms(6) [rule_format, of 6]
      assms(6) [rule_format, of 7] assms(6) [rule_format, of 8]
    by simp_all
  note aux = C2_aux [OF assms(3,4,5) z, simplified]
  have rb: "?r \<le> 255 * 8" "?g \<le> 255 * 8" "?b \<le> 255 * 8"
  proof -
    have "?r \<le> 255 + 255 + 255 + 255 + 255 + 255 + 255 + 255"
      by (intro add_mono unat_byte_le)
    then show "?r \<le> 255 * 8" by simp
    have "?g \<le> 255 + 255 + 255 + 255 + 255 + 255 + 255 + 255"
      by (intro add_mono unat_byte_le)
    then show "?g \<le> 255 * 8" by simp
    have "?b \<le> 255 + 255 + 255 + 255 + 255 + 255 + 255 + 255"
      by (intro add_mono unat_byte_le)
    then show "?b \<le> 255 * 8" by simp
  qed
  let ?st = "\<lparr>dat = ?d, mask = ?m, damagedPixels = [?p], solvedThisPass = [], remaining = 1\<rparr>"
  have i: "init img msk = ?st"
    by (simp add: init_def assms(1,2) aux(1))
  have body: "loop_body 3 3 ?st = ?st'"
    by (simp add: loop_body_def pass_def for_k.simps(2) solve_pixel_def aux(2) commit_def unmask_def
        wr_def assms(3,4) Let_def)
  have wl: "while_loop 3 3 0 500 ?st = (loop_body 3 3 ?st, Suc 0, Resolved)"
    by (rule while_loop_one_pass) (simp_all only: body, simp_all)
  have p: "process img msk = (?st', Suc 0, Resolved)"
    unfolding process_def assms(1,2) i wl body ..
  show ?thesis
    unfolding p Let_def
    using assms(3) unat_ToUint8Clamp_div [OF _ rb(1)] unat_ToUint8Clamp_div [OF _ rb(2)]
      unat_ToUint8Clamp_div [OF _ rb(3)]
    by simp
qed

theorem C2_witness:
  "(width img_3x3 = 3 \<and> height img_3x3 = 3 \<and> length (data img_3x3) = 36
     \<and> length (data msk_3x3) = 36 \<and> 0 < data msk_3x3 ! 19
     \<and> list_all (\<lambda>k. k = 4 \<or> data msk_3x3 ! (4 * k + 3) = 0) [0..<9])
   \<and> (let d = data img_3x3; st = fst (process img_3x3 msk_3x3);
             total = (\<lambda>c. unat (d ! c) + unat (d ! (4 + c)) + unat (d ! (8 + c))
                        + unat (d ! (12 + c)) + unat (d ! (20 + c)) + unat (d ! (24 + c))
                        + unat (d ! (28 + c)) + unat (d ! (32 + c)))
         in unat (dat st ! 16) = round_half_even (total 0) 8
          \<and> unat (dat st ! 17) = round_half_even (total 1) 8
          \<and> unat (dat st ! 18) = round_half_even (total 2) 8
          \<and> dat st ! 19 = 255
          \<and> remaining st = 0
          \<and> snd (process img_3x3 msk_3x3) = (1, Resolved))"
proof -
  have h: "width img_3x3 = 3" "height img_3x3 = 3" "length (data img_3x3) = 36"
      "length (data msk_3x3) = 36" "0 < data msk_3x3 ! 19"
    by (simp_all add: img_3x3_def msk_3x3_def)
  have h6: "\<forall>k<9. k \<noteq> 4 \<longrightarrow> data msk_3x3 ! (4 * k + 3) = 0"
    unfolding all_less_upt by code_simp
  have h6': "list_all (\<lambda>k. k = 4 \<or> data msk_3x3 ! (4 * k + 3) = 0) [0..<9]"
    by code_simp
  from C2_center_pixel [OF h h6] h h6' show ?thesis by blast
qed

text \<open>
  The stored byte is not the exact mean, and not the truncated quotient either: the red
  channels of the eight neighbours of the centre of \<open>img_3x3\<close> add up to 12 (mean 1.5,
  truncated 1), and the centre's red becomes 2.
\<close>

theorem C2_counterexample:
  "width img_3x3 = 3 \<and> height img_3x3 = 3
   \<and> scan 3 3 (data msk_3x3) = [\<lparr>p_x = 1, p_y = 1, p_i = 16, solved = False\<rparr>]
   \<and> unat (data img_3x3 ! 0) + unat (data img_3x3 ! 4) + unat (data img_3x3 ! 8)
       + unat (data img_3x3 ! 12) + unat (data img_3x3 ! 20) + unat (data img_3x3 ! 24)
       + unat (data img_3x3 ! 28) + unat (data img_3x3 ! 32) = 12
   \<and> dat (fst (process img_3x3 msk_3x3)) ! 16 = 2
   \<and> 8 * unat (dat (fst (process img_3x3 msk_3x3)) ! 16) \<noteq> 12
   \<and> unat (dat (fst (process img_3x3 msk_3x3)) ! 16) \<noteq> 12 div 8"
  by code_simp

subsection \<open>A damaged corner (C3)\<close>

lemma C3_scan:
  fixes m :: "byte list"
  assumes w: "2 \<le> w" and h: "2 \<le> h" and lm: "length m = w * h * 4"
    and c: "0 < m ! 3"
    and z: "\<forall>k<w * h. k \<noteq> 0 \<longrightarrow> m ! (4 * k + 3) = 0"
  shows "scan w h m = [\<lparr>p_x = 0, p_y = 0, p_i = 0, solved = False\<rparr>]"
proof -
  have um: "\<not> isMasked m ((yy * w + xx) * 4)" if "xx < w" "yy < h" "yy * w + xx \<noteq> 0" for xx yy
  proof -
    have k: "yy * w + xx < w * h" using that(1,2) by (rule pixel_index_less)
    then have "(yy * w + xx) * 4 + 3 < length m" by (simp add: lm)
    moreover have "m ! (4 * (yy * w + xx) + 3) = 0" using z k that(3) by blast
    ultimately show ?thesis by (simp add: isMasked_nth mult.commute)
  qed
  have "3 < length m" using two_le_mult [OF w h] by (simp add: lm)
  then have m0: "isMasked m 0" using c by (simp add: isMasked_nth)
  have wh: "[0..<w] = 0 # [1..<w]" "[0..<h] = 0 # [1..<h]"
    using w h by (simp_all add: upt_conv_Cons)
  have row0: "concat (map (scan_pixel w m 0) [1..<w]) = []"
  proof (rule concat_map_Nil)
    fix xx assume "xx \<in> set [1..<w]"
    then have "xx < w" "0 * w + xx \<noteq> 0" by simp_all
    then have "\<not> isMasked m ((0 * w + xx) * 4)" using um [of xx 0] h by simp
    then show "scan_pixel w m 0 xx = []" by (rule scan_pixel_unmasked)
  qed
  have rows: "concat (map (\<lambda>yy. concat (map (scan_pixel w m yy) [0..<w])) [1..<h]) = []"
  proof (rule concat_map_Nil)
    fix yy assume "yy \<in> set [1..<h]"
    then have yy: "0 < yy" "yy < h" by simp_all
    show "concat (map (scan_pixel w m yy) [0..<w]) = []"
    proof (rule concat_map_Nil)
      fix xx assume "xx \<in> set [0..<w]"
      then have "xx < w" by simp
      moreover have "yy * w + xx \<noteq> 0" using yy(1) w by simp
      ultimately have "\<not> isMasked m ((yy * w + xx) * 4)" using um [of xx yy] yy(2) by simp
      then show "scan_pixel w m yy xx = []" by (rule scan_pixel_unmasked)
    qed
  qed
  have "scan w h m = concat (map (\<lambda>yy. concat (map (scan_pixel w m yy) [0..<w])) (0 # [1..<h]))"
    unfolding scan_def wh(2) [symmetric] ..
  also have "\<dots> = concat (map (scan_pixel w m 0) (0 # [1..<w]))"
    using rows wh(1) by simp
  also have "\<dots> = scan_pixel w m 0 0"
    using row0 by simp
  also have "\<dots> = [\<lparr>p_x = 0, p_y = 0, p_i = 0, solved = False\<rparr>]"
    using m0 by (simp add: scan_pixel_def)
  finally show ?thesis .
qed

lemma C3_neighbors:
  fixes d m :: "byte list"
  assumes w: "2 \<le> w" and h: "2 \<le> h" and ld: "length d = w * h * 4" and lm: "length m = w * h * 4"
    and z: "\<forall>k<w * h. k \<noteq> 0 \<longrightarrow> m ! (4 * k + 3) = 0"
  shows "neighbors w h d m \<lparr>p_x = 0, p_y = 0, p_i = 0, solved = False\<rparr> =
       (Some (unat (d ! 4) + unat (d ! (4 * w)) + unat (d ! (4 * w + 4))),
        Some (unat (d ! 5) + unat (d ! (4 * w + 1)) + unat (d ! (4 * w + 5))),
        Some (unat (d ! 6) + unat (d ! (4 * w + 2)) + unat (d ! (4 * w + 6))), 3)"
proof -
  have k: "1 < w * h" "w < w * h" "w + 1 < w * h"
    using two_le_mult [OF w h] by linarith+
  have zs: "m ! 7 = 0" "m ! (4 * w + 3) = 0" "m ! (4 * w + 7) = 0"
  proof -
    show "m ! 7 = 0" using z [rule_format, of 1] k(1) by simp
    show "m ! (4 * w + 3) = 0" using z [rule_format, of w] k(2) w by simp
    have "m ! (4 * (w + 1) + 3) = 0" using z [rule_format, of "w + 1"] k(3) by simp
    then show "m ! (4 * w + 7) = 0" by (simp add: add.commute)
  qed
  have len: "4 * w + 8 \<le> length m" "4 * w + 8 \<le> length d"
    using k(3) by (simp_all add: lm ld)
  let ?p = "\<lparr>p_x = 0, p_y = 0, p_i = 0, solved = False\<rparr>"
  have out: "neighbor w h d m ?p a (- 1, - 1) = a" "neighbor w h d m ?p a (0, - 1) = a"
    "neighbor w h d m ?p a (1, - 1) = a" "neighbor w h d m ?p a (- 1, 0) = a"
    "neighbor w h d m ?p a (- 1, 1) = a" for a
    by (simp_all add: neighbor_def split: prod.splits)
  have um: "\<not> isMasked m 4" "\<not> isMasked m (4 * w)" "\<not> isMasked m (4 * w + 4)"
  proof -
    show "\<not> isMasked m 4" using len(1) zs(1) by (simp add: isMasked_nth)
    show "\<not> isMasked m (4 * w)" using len(1) zs(2) by (simp add: isMasked_nth)
    have "m ! (7 + 4 * w) = 0" using zs(3) by (simp only: add.commute)
    then show "\<not> isMasked m (4 * w + 4)"
      using len(1) by (simp add: isMasked_nth)
  qed
  have n1: "neighbor w h d m ?p (r, g, b, c) (1, 0) =
      (acc_add r (rd d 4), acc_add g (rd d 5), acc_add b (rd d 6), c + 1)" for r g b c
    using w h um(1) by (simp add: neighbor_def Let_def)
  have n2: "neighbor w h d m ?p (r, g, b, c) (0, 1) =
      (acc_add r (rd d (4 * w)), acc_add g (rd d (4 * w + 1)), acc_add b (rd d (4 * w + 2)), c + 1)"
    for r g b c
    using w h um(2) by (simp add: neighbor_def Let_def mult.commute)
  have n3: "neighbor w h d m ?p (r, g, b, c) (1, 1) =
      (acc_add r (rd d (4 * w + 4)), acc_add g (rd d (4 * w + 5)), acc_add b (rd d (4 * w + 6)), c + 1)"
    for r g b c
    using w h um(3) by (simp add: neighbor_def Let_def mult.commute add.commute)
  have rds: "rd d j = Some (d ! j)" if "j < 4 * w + 8" for j
    using that len(2) by (simp add: rd_def)
  have "neighbors w h d m ?p =
     (acc_add (acc_add (acc_add (Some 0) (rd d 4)) (rd d (4 * w))) (rd d (4 * w + 4)),
      acc_add (acc_add (acc_add (Some 0) (rd d 5)) (rd d (4 * w + 1))) (rd d (4 * w + 5)),
      acc_add (acc_add (acc_add (Some 0) (rd d 6)) (rd d (4 * w + 2))) (rd d (4 * w + 6)),
      3)"
    by (simp add: neighbors_def offsets_def out n1 n2 n3)
  then show ?thesis
    by (simp add: rds acc_add_def)
qed

text \<open>
  C3, as the code has it. For every record \<open>p\<close> an offset that is out of bounds, on either
  side, leaves the sums and \<^verbatim>\<open>count\<close> as they are; the neighbour loop is the loop over
  the offsets in bounds, and \<^verbatim>\<open>count\<close> is at most their number. In an image of at least
  2 by 2 pixels whose top-left pixel alone is damaged, the offsets in bounds of the corner
  are the three to the right, below and diagonally below, \<^verbatim>\<open>count\<close> is 3, and the
  corner's red, green and blue become the sum of these three neighbours' channel divided
  by 3 and rounded to the nearest integer (\<open>round_half_even\<close>); the pixel is resolved in
  one pass.
\<close>

theorem C3_corner_pixel:
  assumes "2 \<le> width img" and "2 \<le> height img"
    and "length (data img) = width img * height img * 4"
    and "length (data msk) = width img * height img * 4"
    and "0 < data msk ! 3"
    and "\<forall>k<width img * height img. k \<noteq> 0 \<longrightarrow> data msk ! (4 * k + 3) = 0"
  shows "let w = width img; h = height img; d = data img; m = data msk;
             st = fst (process img msk);
             p0 = \<lparr>p_x = 0, p_y = 0, p_i = 0, solved = False\<rparr>;
             total = (\<lambda>c. unat (d ! (4 + c)) + unat (d ! (4 * w + c)) + unat (d ! (4 * w + 4 + c)))
         in (\<forall>p a off. \<not> in_bounds w h p off \<longrightarrow> neighbor w h d m p a off = a)
          \<and> (\<forall>p. neighbors w h d m p
                   = foldl (neighbor w h d m p) (Some 0, Some 0, Some 0, 0)
                       (filter (in_bounds w h p) offsets)
                 \<and> cnt_of (neighbors w h d m p) \<le> length (filter (in_bounds w h p) offsets))
          \<and> filter (in_bounds w h p0) offsets = [(1, 0), (0, 1), (1, 1)]
          \<and> neighbors w h d m p0 = (Some (total 0), Some (total 1), Some (total 2), 3)
          \<and> unat (dat st ! 0) = round_half_even (total 0) 3
          \<and> unat (dat st ! 1) = round_half_even (total 1) 3
          \<and> unat (dat st ! 2) = round_half_even (total 2) 3
          \<and> dat st ! 3 = 255
          \<and> remaining st = 0
          \<and> snd (process img msk) = (1, Resolved)"
proof -
  let ?w = "width img" and ?h = "height img" and ?d = "data img" and ?m = "data msk"
  let ?p = "\<lparr>p_x = 0, p_y = 0, p_i = 0, solved = False\<rparr>"
  let ?r = "unat (?d ! 4) + unat (?d ! (4 * ?w)) + unat (?d ! (4 * ?w + 4))"
  let ?g = "unat (?d ! 5) + unat (?d ! (4 * ?w + 1)) + unat (?d ! (4 * ?w + 5))"
  let ?b = "unat (?d ! 6) + unat (?d ! (4 * ?w + 2)) + unat (?d ! (4 * ?w + 6))"
  let ?d' = "?d[0 := ToUint8Clamp_div (Some ?r) 3, 1 := ToUint8Clamp_div (Some ?g) 3,
               2 := ToUint8Clamp_div (Some ?b) 3, 3 := 255]"
  let ?st = "\<lparr>dat = ?d, mask = ?m, damagedPixels = [?p], solvedThisPass = [], remaining = 1\<rparr>"
  let ?st' = "\<lparr>dat = ?d', mask = ?m[3 := 0], damagedPixels = [?p\<lparr>solved := True\<rparr>],
               solvedThisPass = [?p\<lparr>solved := True\<rparr>], remaining = 0\<rparr>"
  note sc = C3_scan [OF assms(1,2,4,5,6)]
  note nb = C3_neighbors [OF assms(1,2,3,4,6)]
  have len: "3 < length ?d" "3 < length ?m"
    using two_le_mult [OF assms(1,2)] by (simp_all add: assms(3,4))
  have ne: "?d \<noteq> []" using len(1) by auto
  have rb: "?r \<le> 255 * 3" "?g \<le> 255 * 3" "?b \<le> 255 * 3"
  proof -
    have "?r \<le> 255 + 255 + 255" by (intro add_mono unat_byte_le)
    then show "?r \<le> 255 * 3" by simp
    have "?g \<le> 255 + 255 + 255" by (intro add_mono unat_byte_le)
    then show "?g \<le> 255 * 3" by simp
    have "?b \<le> 255 + 255 + 255" by (intro add_mono unat_byte_le)
    then show "?b \<le> 255 * 3" by simp
  qed
  have i: "init img msk = ?st"
    by (simp add: init_def sc)
  have body: "loop_body ?w ?h ?st = ?st'"
    using len
    by (simp add: loop_body_def pass_def for_k.simps(2) solve_pixel_def nb commit_def unmask_def
        wr_def Let_def flip: numeral_2_eq_2)
  have wl: "while_loop ?w ?h 0 500 ?st = (loop_body ?w ?h ?st, Suc 0, Resolved)"
    by (rule while_loop_one_pass) (simp_all only: body, simp_all)
  have p: "process img msk = (?st', Suc 0, Resolved)"
    unfolding process_def i wl body ..
  have vals: "unat (?d' ! 0) = round_half_even ?r 3" "unat (?d' ! 1) = round_half_even ?g 3"
      "unat (?d' ! 2) = round_half_even ?b 3" "?d' ! 3 = 255"
    using len(1) ne unat_ToUint8Clamp_div [OF _ rb(1)] unat_ToUint8Clamp_div [OF _ rb(2)]
      unat_ToUint8Clamp_div [OF _ rb(3)]
    by simp_all
  have old: "let w = width img; h = height img; d = data img; m = data msk;
             st = fst (process img msk);
             p0 = \<lparr>p_x = 0, p_y = 0, p_i = 0, solved = False\<rparr>;
             total = (\<lambda>c. unat (d ! (4 + c)) + unat (d ! (4 * w + c)) + unat (d ! (4 * w + 4 + c)))
         in neighbors w h d m p0 = (Some (total 0), Some (total 1), Some (total 2), 3)
          \<and> unat (dat st ! 0) = round_half_even (total 0) 3
          \<and> unat (dat st ! 1) = round_half_even (total 1) 3
          \<and> unat (dat st ! 2) = round_half_even (total 2) 3
          \<and> dat st ! 3 = 255
          \<and> remaining st = 0
          \<and> snd (process img msk) = (1, Resolved)"
    unfolding Let_def p using nb vals by (simp add: add.commute)
  have gen: "\<forall>p a off. \<not> in_bounds ?w ?h p off \<longrightarrow> neighbor ?w ?h ?d ?m p a off = a"
    "\<forall>p. neighbors ?w ?h ?d ?m p
           = foldl (neighbor ?w ?h ?d ?m p) (Some 0, Some 0, Some 0, 0)
               (filter (in_bounds ?w ?h p) offsets)
         \<and> cnt_of (neighbors ?w ?h ?d ?m p) \<le> length (filter (in_bounds ?w ?h p) offsets)"
  proof -
    show "\<forall>p a off. \<not> in_bounds ?w ?h p off \<longrightarrow> neighbor ?w ?h ?d ?m p a off = a"
      by (auto simp: neighbor_def in_bounds_def Let_def split: prod.splits)
    show "\<forall>p. neighbors ?w ?h ?d ?m p
           = foldl (neighbor ?w ?h ?d ?m p) (Some 0, Some 0, Some 0, 0)
               (filter (in_bounds ?w ?h p) offsets)
         \<and> cnt_of (neighbors ?w ?h ?d ?m p) \<le> length (filter (in_bounds ?w ?h p) offsets)"
      using neighbors_in_bounds cnt_of_neighbors_le by blast
  qed
  note cib = corner_in_bounds [OF assms(1,2)]
  from old gen cib show ?thesis
    unfolding Let_def by blast
qed

theorem C3_witness:
  "(2 \<le> width img_2x2 \<and> 2 \<le> height img_2x2
     \<and> length (data img_2x2) = width img_2x2 * height img_2x2 * 4
     \<and> length (data msk_2x2_corner) = width img_2x2 * height img_2x2 * 4
     \<and> 0 < data msk_2x2_corner ! 3
     \<and> list_all (\<lambda>k. k = 0 \<or> data msk_2x2_corner ! (4 * k + 3) = 0)
           [0..<width img_2x2 * height img_2x2])
   \<and> (let w = width img_2x2; h = height img_2x2; d = data img_2x2; m = data msk_2x2_corner;
          st = fst (process img_2x2 msk_2x2_corner);
          p0 = \<lparr>p_x = 0, p_y = 0, p_i = 0, solved = False\<rparr>;
          p3 = \<lparr>p_x = 1, p_y = 1, p_i = 12, solved = False\<rparr>;
          total = (\<lambda>c. unat (d ! (4 + c)) + unat (d ! (4 * w + c)) + unat (d ! (4 * w + 4 + c)))
      in \<not> in_bounds w h p3 (1, 1)
       \<and> neighbor w h d m p3 (Some 5, Some 6, Some 7, 2) (1, 1) = (Some 5, Some 6, Some 7, 2)
       \<and> \<not> in_bounds w h p0 (- 1, 0)
       \<and> neighbor w h d m p0 (Some 5, Some 6, Some 7, 2) (- 1, 0) = (Some 5, Some 6, Some 7, 2)
       \<and> cnt_of (neighbors w h d m p3) \<le> length (filter (in_bounds w h p3) offsets)
       \<and> neighbors w h d m p3 = (Some 9, Some 15, Some 2, 2)
       \<and> filter (in_bounds w h p3) offsets = [(- 1, - 1), (0, - 1), (- 1, 0)]
       \<and> filter (in_bounds w h p0) offsets = [(1, 0), (0, 1), (1, 1)]
       \<and> neighbors w h d m p0 = (Some (total 0), Some (total 1), Some (total 2), 3)
       \<and> unat (dat st ! 0) = round_half_even (total 0) 3
       \<and> unat (dat st ! 1) = round_half_even (total 1) 3
       \<and> unat (dat st ! 2) = round_half_even (total 2) 3
       \<and> dat st ! 3 = 255
       \<and> remaining st = 0
       \<and> snd (process img_2x2 msk_2x2_corner) = (1, Resolved))
   \<and> dat (fst (process img_2x2 msk_2x2_corner))
        = [4, 7, 1, 255,  6, 9, 0, 7,  3, 6, 2, 7,  3, 6, 0, 7]"
proof -
  have h: "2 \<le> width img_2x2" "2 \<le> height img_2x2"
      "length (data img_2x2) = width img_2x2 * height img_2x2 * 4"
      "length (data msk_2x2_corner) = width img_2x2 * height img_2x2 * 4"
      "0 < data msk_2x2_corner ! 3"
    by (simp_all add: img_2x2_def msk_2x2_corner_def)
  have h6: "\<forall>k<width img_2x2 * height img_2x2. k \<noteq> 0 \<longrightarrow> data msk_2x2_corner ! (4 * k + 3) = 0"
    unfolding all_less_upt by code_simp
  have h6': "list_all (\<lambda>k. k = 0 \<or> data msk_2x2_corner ! (4 * k + 3) = 0)
           [0..<width img_2x2 * height img_2x2]"
    by code_simp
  have o: "\<not> in_bounds (width img_2x2) (height img_2x2)
               \<lparr>p_x = 1, p_y = 1, p_i = 12, solved = False\<rparr> (1, 1)"
    "\<not> in_bounds (width img_2x2) (height img_2x2)
               \<lparr>p_x = 0, p_y = 0, p_i = 0, solved = False\<rparr> (- 1, 0)"
    "filter (in_bounds (width img_2x2) (height img_2x2)
               \<lparr>p_x = 1, p_y = 1, p_i = 12, solved = False\<rparr>) offsets
       = [(- 1, - 1), (0, - 1), (- 1, 0)]"
    by (simp_all add: in_bounds_def offsets_def img_2x2_def)
  have v: "dat (fst (process img_2x2 msk_2x2_corner))
        = [4, 7, 1, 255,  6, 9, 0, 7,  3, 6, 2, 7,  3, 6, 0, 7]"
    "neighbors (width img_2x2) (height img_2x2) (data img_2x2) (data msk_2x2_corner)
        \<lparr>p_x = 1, p_y = 1, p_i = 12, solved = False\<rparr> = (Some 9, Some 15, Some 2, 2)"
    by code_simp+
  note t = C3_corner_pixel [OF h h6, unfolded Let_def]
  show ?thesis
    unfolding Let_def using t h h6' o v by blast
qed

text \<open>
  The claim as stated fails in two ways. In the 2 by 1 image \<open>img_2x1\<close> with only its
  corner damaged, the corner has one neighbour in bounds, not three: \<^verbatim>\<open>count\<close> is 1 and
  the corner takes the colour of the pixel to its right. In the 2 by 2 image \<open>img_2x2\<close> the
  blue channels of the three neighbours add up to 2, and the corner's blue becomes 1:
  neither the exact mean 2/3 nor the truncated quotient 0.
\<close>

theorem C3_counterexample:
  "scan (width img_2x1) (height img_2x1) (data msk_2x1_corner)
     = [\<lparr>p_x = 0, p_y = 0, p_i = 0, solved = False\<rparr>]
   \<and> neighbors (width img_2x1) (height img_2x1) (data img_2x1) (data msk_2x1_corner)
         \<lparr>p_x = 0, p_y = 0, p_i = 0, solved = False\<rparr> = (Some 50, Some 60, Some 70, 1)
   \<and> dat (fst (process img_2x1 msk_2x1_corner)) = [50, 60, 70, 255, 50, 60, 70, 80]
   \<and> scan (width img_2x2) (height img_2x2) (data msk_2x2_corner)
         = [\<lparr>p_x = 0, p_y = 0, p_i = 0, solved = False\<rparr>]
   \<and> unat (data img_2x2 ! 6) + unat (data img_2x2 ! 10) + unat (data img_2x2 ! 14) = 2
   \<and> dat (fst (process img_2x2 msk_2x2_corner)) ! 2 = 1
   \<and> 3 * unat (dat (fst (process img_2x2 msk_2x2_corner)) ! 2) \<noteq> 2
   \<and> unat (dat (fst (process img_2x2 msk_2x2_corner)) ! 2) \<noteq> 2 div 3"
  by code_simp

subsection \<open>A fully damaged image (C4)\<close>

text \<open>
  C4: when every pixel of the mask has alpha \<open>> 0\<close>, the first pass fills no pixel (no
  pixel has an unmasked neighbour), the loop is left by the \<^verbatim>\<open>break\<close> after that one
  pass, \<open>remaining\<close> is still the number of pixels, and the pixel array is returned as
  it was.
\<close>

theorem C4_fully_damaged:
  assumes "0 < width img" and "0 < height img"
    and "\<forall>yy<height img. \<forall>xx<width img. isMasked (data msk) ((yy * width img + xx) * 4)"
  shows "process img msk = (init img msk, 1, Stuck)
       \<and> solvedThisPass (fst (process img msk)) = []
       \<and> remaining (fst (process img msk)) = int (width img * height img)
       \<and> dat (fst (process img msk)) = data img
       \<and> returned img msk = img"
proof -
  let ?w = "width img" and ?h = "height img"
  let ?st = "init img msk"
  have len: "length (scan ?w ?h (data msk)) = ?w * ?h"
    using assms(3) by (rule length_scan_all_masked)
  have rem: "remaining ?st = int (?w * ?h)"
    by (simp only: init_simps len)
  have pos: "0 < remaining ?st"
    unfolding rem using assms(1,2) by simp
  have "for_k ?w ?h ps (?st\<lparr>solvedThisPass := []\<rparr>) = (ps, ?st\<lparr>solvedThisPass := []\<rparr>)" for ps
    by (rule for_k_all_masked) (use assms(3) in simp)
  then have body: "loop_body ?w ?h ?st = ?st"
    by (simp add: loop_body_def pass_def commit_def)
  have "while_loop ?w ?h 0 500 ?st = (?st, 1, Stuck)"
    using pos by (subst while_loop.simps) (simp add: body)
  then have p: "process img msk = (?st, 1, Stuck)"
    by (simp add: process_def)
  show ?thesis
    using rem by (simp add: returned_def p)
qed

theorem C4_witness:
  "(0 < width img_2x1 \<and> 0 < height img_2x1
    \<and> list_all (\<lambda>yy. list_all (\<lambda>xx.
           isMasked (data msk_2x1_full) ((yy * width img_2x1 + xx) * 4)) [0..<width img_2x1])
           [0..<height img_2x1])
   \<and> process img_2x1 msk_2x1_full = (init img_2x1 msk_2x1_full, 1, Stuck)
   \<and> solvedThisPass (fst (process img_2x1 msk_2x1_full)) = []
   \<and> remaining (fst (process img_2x1 msk_2x1_full)) = int (width img_2x1 * height img_2x1)
   \<and> dat (fst (process img_2x1 msk_2x1_full)) = data img_2x1
   \<and> returned img_2x1 msk_2x1_full = img_2x1"
proof -
  have h1: "0 < width img_2x1" and h2: "0 < height img_2x1"
    by (simp_all add: img_2x1_def)
  have h3: "\<forall>yy<height img_2x1. \<forall>xx<width img_2x1.
           isMasked (data msk_2x1_full) ((yy * width img_2x1 + xx) * 4)"
    unfolding all_less_upt by code_simp
  from C4_fully_damaged [OF h1 h2 h3] h1 h2 h3 show ?thesis
    unfolding all_less_upt by blast
qed

subsection \<open>The snapshot of a pass (C5)\<close>

text \<open>
  C5: let \<open>st\<close> be the locals when a pass begins, and let the records be processed in any
  order \<open>ps\<close>. When the loop over \<open>k\<close> has processed the records \<open>qs\<close> and reaches the
  record \<open>p\<close>, the mask array is still the one of \<open>st\<close>; the neighbour loop of \<open>p\<close> gives
  what it gives on the arrays of \<open>st\<close>; every record solved so far in this pass is still
  masked, so the neighbour loop skips it; the outcome for every record is a function of
  the arrays of \<open>st\<close> alone, whatever the order; and the whole pass leaves the mask
  unchanged (the clearing comes after it).
\<close>

theorem C5_pass_snapshot:
  assumes "st = (loop_body (width img) (height img) ^^ n) (init img msk)"
    and "mset ps = mset (damagedPixels st)"
    and "ps = qs @ p # rs"
  shows "let w = width img; h = height img;
             s = snd (for_k w h qs (st\<lparr>solvedThisPass := []\<rparr>)) in
           mask s = mask st
         \<and> neighbors w h (dat s) (mask s) p = neighbors w h (dat st) (mask st) p
         \<and> (\<forall>q\<in>set (solvedThisPass s). isMasked (mask s) (p_i q))
         \<and> fst (for_k w h ps (st\<lparr>solvedThisPass := []\<rparr>))
             = map (\<lambda>p. if solves w h (dat st) (mask st) p then p\<lparr>solved := True\<rparr> else p) ps
         \<and> mask (pass w h st) = mask st"
proof -
  let ?w = "width img" and ?h = "height img"
  let ?st0 = "st\<lparr>solvedThisPass := []\<rparr>"
  let ?s = "snd (for_k ?w ?h qs ?st0)"
  have i: "pass_inv ?w ?h (data img) (data msk) st"
    unfolding assms(1) by (rule pass_inv_funpow)
  have set: "set ps = set (damagedPixels st)"
    using assms(2) by (rule mset_eq_setD)
  have hps: "\<forall>p\<in>set ps. \<not> solved p \<longrightarrow> 4 dvd p_i p \<and> isMasked (mask st) (p_i p)"
    using pass_inv_snapshot_hyp [OF i] set by simp
  then have hqs: "\<forall>p\<in>set qs. \<not> solved p \<longrightarrow> 4 dvd p_i p \<and> isMasked (mask st) (p_i p)"
    unfolding assms(3) by simp
  have a: "same_unmasked (mask st) (dat st) (dat ?st0)" by (simp add: same_unmasked_refl)
  have b: "mask ?st0 = mask st" by simp
  note sq = for_k_snapshot [OF a b hqs, of ?w ?h]
  note sp = for_k_snapshot [OF a b hps, of ?w ?h]
  have c1: "mask ?s = mask st" by simp
  have c2: "neighbors ?w ?h (dat ?s) (mask ?s) p = neighbors ?w ?h (dat st) (mask st) p"
    using sq by (simp add: neighbors_cong)
  have c3: "isMasked (mask ?s) (p_i q)" if "q \<in> set (solvedThisPass ?s)" for q
  proof -
    from that sq obtain q0 where q0: "q0 \<in> set qs" "solves ?w ?h (dat st) (mask st) q0"
        "q = q0\<lparr>solved := True\<rparr>"
      by auto
    then have "\<not> solved q0" by (simp add: solves_def)
    with hqs q0(1) have "isMasked (mask st) (p_i q0)" by blast
    then show ?thesis using q0(3) by simp
  qed
  show ?thesis
    unfolding Let_def using c1 c2 c3 sp by simp
qed

theorem C5_witness:
  "let w = width img_3x1; h = height img_3x1;
       st = (loop_body w h ^^ 0) (init img_3x1 msk_3x1);
       p1 = \<lparr>p_x = 1, p_y = 0, p_i = 4, solved = False\<rparr>;
       p2 = \<lparr>p_x = 2, p_y = 0, p_i = 8, solved = False\<rparr>;
       s = snd (for_k w h [p1] (st\<lparr>solvedThisPass := []\<rparr>)) in
     damagedPixels st = [p1] @ p2 # []
   \<and> solvedThisPass s = [p1\<lparr>solved := True\<rparr>]
   \<and> dat s = [10, 20, 30, 40,  10, 20, 30, 255,  2, 2, 2, 2]
   \<and> mask s = mask st
   \<and> neighbors w h (dat s) (mask s) p2 = neighbors w h (dat st) (mask st) p2
   \<and> neighbors w h (dat s) (mask s) p2 = (Some 0, Some 0, Some 0, 0)
   \<and> isMasked (mask s) (p_i (p1\<lparr>solved := True\<rparr>))
   \<and> fst (for_k w h ([p1] @ p2 # []) (st\<lparr>solvedThisPass := []\<rparr>))
       = map (\<lambda>p. if solves w h (dat st) (mask st) p then p\<lparr>solved := True\<rparr> else p) ([p1] @ p2 # [])
   \<and> mask (pass w h st) = mask st"
proof -
  let ?w = "width img_3x1" and ?h = "height img_3x1"
  let ?st = "(loop_body ?w ?h ^^ 0) (init img_3x1 msk_3x1)"
  let ?p1 = "\<lparr>p_x = 1, p_y = 0, p_i = 4, solved = False\<rparr>"
  let ?p2 = "\<lparr>p_x = 2, p_y = 0, p_i = 8, solved = False\<rparr>"
  let ?s = "snd (for_k ?w ?h [?p1] (?st\<lparr>solvedThisPass := []\<rparr>))"
  have d: "damagedPixels ?st = [?p1] @ ?p2 # []"
    by code_simp
  have h2: "mset ([?p1] @ ?p2 # []) = mset (damagedPixels ?st)"
    by (simp only: d)
  have v: "solvedThisPass ?s = [?p1\<lparr>solved := True\<rparr>]"
    "dat ?s = [10, 20, 30, 40,  10, 20, 30, 255,  2, 2, 2, 2]"
    "neighbors ?w ?h (dat ?s) (mask ?s) ?p2 = (Some 0, Some 0, Some 0, 0)"
    by code_simp+
  note t = C5_pass_snapshot [OF refl h2 refl, unfolded Let_def]
  have m: "isMasked (mask ?s) (p_i (?p1\<lparr>solved := True\<rparr>))"
    using t v(1) by simp
  show ?thesis
    unfolding Let_def using d v m t by blast
qed

subsection \<open>The \<open>solved\<close> flag (C6)\<close>

text \<open>
  C6: every record of the scan starts with \<open>solved = False\<close>. Let \<open>st\<close> be the locals
  before a pass (after \<open>n\<close> runs of the loop body) and \<open>st'\<close> the locals after it. The pass
  changes a record at most by setting the flag of an unsolved record, so the flag goes
  from false to true at most once and never back; a record that is solved after the pass
  has mask alpha 0 after it; and the four bytes of a record that was solved before the
  pass are not written by the pass.
\<close>

theorem C6_solved_once:
  "let w = width img; h = height img;
       st = (loop_body w h ^^ n) (init img msk); st' = loop_body w h st in
     (\<forall>p\<in>set (scan w h (data msk)). \<not> solved p)
   \<and> damagedPixels (init img msk) = scan w h (data msk)
   \<and> length (damagedPixels st') = length (damagedPixels st)
   \<and> (\<forall>k<length (damagedPixels st).
        let p = damagedPixels st ! k; p' = damagedPixels st' ! k in
          (p' = p \<or> (\<not> solved p \<and> p' = p\<lparr>solved := True\<rparr>))
        \<and> (solved p' \<longrightarrow> rd (mask st') (p_i p' + 3) = Some 0)
        \<and> (solved p \<longrightarrow> (\<forall>c<4. rd (dat st') (p_i p + c) = rd (dat st) (p_i p + c))))"
proof -
  let ?w = "width img" and ?h = "height img"
  let ?st = "(loop_body ?w ?h ^^ n) (init img msk)"
  let ?st' = "loop_body ?w ?h ?st"
  let ?ps = "damagedPixels ?st"
  define S where "S = solves ?w ?h (dat ?st) (mask ?st)"
  define f where "f = (\<lambda>p. if S p then p\<lparr>solved := True\<rparr> else p)"
  note i = pass_inv_funpow [of img msk n]
  note i' = pass_inv_loop_body [OF i]
  note lb = loop_body_inv [OF i, folded S_def]
  have ps': "damagedPixels ?st' = map f ?ps"
    by (simp add: lb(1) f_def)
  have Su: "\<not> solved p" if "S p" for p using that by (simp add: S_def solves_def)
  have a: "\<forall>p\<in>set (scan ?w ?h (data msk)). \<not> solved p"
    using scan_records(1) by blast
  have b: "length (damagedPixels ?st') = length ?ps" by (simp add: ps')
  have c: "(let p = ?ps ! k; p' = damagedPixels ?st' ! k in
          (p' = p \<or> (\<not> solved p \<and> p' = p\<lparr>solved := True\<rparr>))
        \<and> (solved p' \<longrightarrow> rd (mask ?st') (p_i p' + 3) = Some 0)
        \<and> (solved p \<longrightarrow> (\<forall>c<4. rd (dat ?st') (p_i p + c) = rd (dat ?st) (p_i p + c))))"
    if k: "k < length ?ps" for k
  proof -
    let ?p = "?ps ! k"
    have mem: "?p \<in> set ?ps" using k by simp
    have p': "damagedPixels ?st' ! k = f ?p" using k by (simp add: ps')
    have mem': "f ?p \<in> set (damagedPixels ?st')" using mem by (simp add: ps')
    have c1: "f ?p = ?p \<or> (\<not> solved ?p \<and> f ?p = ?p\<lparr>solved := True\<rparr>)"
      using Su by (auto simp: f_def)
    have c2: "rd (mask ?st') (p_i (f ?p) + 3) = Some 0" if "solved (f ?p)"
      using pass_inv_solved_cleared [OF i' mem' that] .
    have c3: "rd (dat ?st') (p_i ?p + c) = rd (dat ?st) (p_i ?p + c)" if sp: "solved ?p" and c: "c < 4" for c
    proof (rule ccontr)
      assume "rd (dat ?st') (p_i ?p + c) \<noteq> rd (dat ?st) (p_i ?p + c)"
      then have "rd (dat (pass ?w ?h ?st)) (p_i ?p + c) \<noteq> rd (dat ?st) (p_i ?p + c)"
        by (simp add: lb(3))
      from rd_dat_pass_solved [OF this] obtain sp where
        s: "sp \<in> set (solvedThisPass (pass ?w ?h ?st))" "p_i sp \<le> p_i ?p + c" "p_i ?p + c < p_i sp + 4"
        by blast
      have "solvedThisPass (pass ?w ?h ?st) = solvedThisPass ?st'"
        by (simp add: loop_body_def)
      with s(1) obtain q where q: "q \<in> set ?ps" "S q" "sp = q\<lparr>solved := True\<rparr>"
        by (auto simp: lb(2))
      have "p_i q = p_i ?p"
        using block_eq [OF pass_inv_record(1) [OF i mem] pass_inv_record(1) [OF i q(1)] _ _ c]
          s(2,3) q(3) by simp
      from pass_inv_p_i_inj [OF i q(1) mem this] Su [OF q(2)] sp show False by simp
    qed
    show ?thesis
      unfolding Let_def p' using c1 c2 c3 by blast
  qed
  show ?thesis
    unfolding Let_def using a b c [unfolded Let_def] by simp
qed

theorem C6_witness:
  "(let st = (loop_body (width img_3x1) (height img_3x1) ^^ 1) (init img_3x1 msk_3x1);
        st' = loop_body (width img_3x1) (height img_3x1) st;
        p = damagedPixels st ! 0; p' = damagedPixels st' ! 0 in
      (0 < length (damagedPixels st) \<and> solved p)
    \<and> p' = p
    \<and> rd (mask st') (p_i p' + 3) = Some 0
    \<and> list_all (\<lambda>c. rd (dat st') (p_i p + c) = rd (dat st) (p_i p + c)) [0..<4])
   \<and> damagedPixels ((loop_body (width img_3x1) (height img_3x1) ^^ 1) (init img_3x1 msk_3x1))
       = [\<lparr>p_x = 1, p_y = 0, p_i = 4, solved = True\<rparr>, \<lparr>p_x = 2, p_y = 0, p_i = 8, solved = False\<rparr>]
   \<and> damagedPixels ((loop_body (width img_3x1) (height img_3x1) ^^ 2) (init img_3x1 msk_3x1))
       = [\<lparr>p_x = 1, p_y = 0, p_i = 4, solved = True\<rparr>, \<lparr>p_x = 2, p_y = 0, p_i = 8, solved = True\<rparr>]"
proof -
  let ?st = "(loop_body (width img_3x1) (height img_3x1) ^^ 1) (init img_3x1 msk_3x1)"
  let ?st' = "loop_body (width img_3x1) (height img_3x1) ?st"
  have h: "0 < length (damagedPixels ?st)" "solved (damagedPixels ?st ! 0)"
    by code_simp+
  have v: "damagedPixels ?st
       = [\<lparr>p_x = 1, p_y = 0, p_i = 4, solved = True\<rparr>, \<lparr>p_x = 2, p_y = 0, p_i = 8, solved = False\<rparr>]"
    "damagedPixels ((loop_body (width img_3x1) (height img_3x1) ^^ 2) (init img_3x1 msk_3x1))
       = [\<lparr>p_x = 1, p_y = 0, p_i = 4, solved = True\<rparr>, \<lparr>p_x = 2, p_y = 0, p_i = 8, solved = True\<rparr>]"
    by code_simp+
  have t: "(damagedPixels ?st' ! 0 = damagedPixels ?st ! 0
          \<or> (\<not> solved (damagedPixels ?st ! 0)
              \<and> damagedPixels ?st' ! 0 = (damagedPixels ?st ! 0)\<lparr>solved := True\<rparr>))
        \<and> (solved (damagedPixels ?st' ! 0) \<longrightarrow>
              rd (mask ?st') (p_i (damagedPixels ?st' ! 0) + 3) = Some 0)
        \<and> (solved (damagedPixels ?st ! 0) \<longrightarrow>
              (\<forall>c<4. rd (dat ?st') (p_i (damagedPixels ?st ! 0) + c)
                       = rd (dat ?st) (p_i (damagedPixels ?st ! 0) + c)))"
    using C6_solved_once [where img = img_3x1 and msk = msk_3x1 and n = 1] h(1) unfolding Let_def by blast
  from t h(2) have e: "damagedPixels ?st' ! 0 = damagedPixels ?st ! 0" by blast
  from t h(2) e have m: "rd (mask ?st') (p_i (damagedPixels ?st' ! 0) + 3) = Some 0" by simp
  from t h(2) have d: "list_all (\<lambda>c. rd (dat ?st') (p_i (damagedPixels ?st ! 0) + c)
                       = rd (dat ?st) (p_i (damagedPixels ?st ! 0) + c)) [0..<4]"
    unfolding all_less_upt by blast
  show ?thesis
    unfolding Let_def using h e m d v by blast
qed

subsection \<open>Termination and the cap of 500 passes (C7)\<close>

text \<open>
  C7: \<^verbatim>\<open>process\<close> returns on every input (\<open>while_loop\<close> is a total function: its
  counter \<^verbatim>\<open>maxIterations\<close> starts at 500 and decreases with every pass). It runs \<open>n\<close>
  passes with \<open>n \<le> 500\<close>; before each of them \<open>remaining\<close> was positive and the pass
  before had solved a pixel; and it stops as soon as \<open>remaining\<close> is 0 (\<open>Resolved\<close>), a
  pass has solved nothing (\<open>Stuck\<close>), or 500 passes have run (\<open>CapExhausted\<close>).
\<close>

theorem C7_terminates_within_cap:
  "case process img msk of (st, n, e) \<Rightarrow>
     (let it = (\<lambda>j. (loop_body (width img) (height img) ^^ j) (init img msk)) in
        n \<le> 500 \<and> st = it n
      \<and> (\<forall>j<n. 0 < remaining (it j))
      \<and> (\<forall>j<n. 0 < j \<longrightarrow> solvedThisPass (it j) \<noteq> [])
      \<and> (case e of
            Resolved \<Rightarrow> remaining st \<le> 0
          | Stuck \<Rightarrow> 0 < n \<and> 0 < remaining (it (n - 1)) \<and> solvedThisPass st = []
          | CapExhausted \<Rightarrow> n = 500 \<and> 0 < remaining st))"
proof -
  obtain st n e where p: "process img msk = (st, n, e)"
    by (cases "process img msk") auto
  then have "while_loop (width img) (height img) 0 500 (init img msk) = (st, n, e)"
    by (simp add: process_def)
  from while_loop_iter [OF this] show ?thesis
    unfolding p by (auto simp: Let_def split: exit.splits)
qed

theorem C7_witness:
  "(case process img_3x1 msk_3x1 of (st, n, e) \<Rightarrow>
     (let it = (\<lambda>j. (loop_body (width img_3x1) (height img_3x1) ^^ j) (init img_3x1 msk_3x1)) in
        n \<le> 500 \<and> st = it n
      \<and> (\<forall>j<n. 0 < remaining (it j))
      \<and> (\<forall>j<n. 0 < j \<longrightarrow> solvedThisPass (it j) \<noteq> [])
      \<and> (case e of
            Resolved \<Rightarrow> remaining st \<le> 0
          | Stuck \<Rightarrow> 0 < n \<and> 0 < remaining (it (n - 1)) \<and> solvedThisPass st = []
          | CapExhausted \<Rightarrow> n = 500 \<and> 0 < remaining st)))
   \<and> snd (process img_3x1 msk_3x1) = (2, Resolved)
   \<and> snd (process img_2x1 msk_2x1_full) = (1, Stuck)"
proof -
  have "snd (process img_3x1 msk_3x1) = (2, Resolved)"
    and "snd (process img_2x1 msk_2x1_full) = (1, Stuck)"
    by code_simp+
  with C7_terminates_within_cap [of img_3x1 msk_3x1] show ?thesis by blast
qed

subsection \<open>A second call (C8)\<close>

text \<open>
  C8: when the first call ends with \<open>remaining = 0\<close>, the mask array it leaves has no
  damaged pixel: a second call on the two objects as the first call left them scans
  nothing, runs no pass and changes neither array.
\<close>

theorem C8_idempotent:
  assumes "remaining (fst (process img msk)) = 0"
  shows "let st = fst (process img msk);
             img' = img\<lparr>data := dat st\<rparr>; msk' = msk\<lparr>data := mask st\<rparr> in
           scan (width img') (height img') (data msk') = []
         \<and> process img' msk' = (init img' msk', 0, Resolved)
         \<and> dat (fst (process img' msk')) = dat st
         \<and> mask (fst (process img' msk')) = mask st
         \<and> returned img' msk' = returned img msk"
proof -
  let ?w = "width img" and ?h = "height img" and ?st = "fst (process img msk)"
  let ?img = "img\<lparr>data := dat ?st\<rparr>" and ?msk = "msk\<lparr>data := mask ?st\<rparr>"
  note i = process_inv [of img msk]
  have "length (filter (\<lambda>p. \<not> solved p) (damagedPixels ?st)) = 0"
    using pass_invD(5) [OF i] assms by simp
  then have all: "solved p" if "p \<in> set (damagedPixels ?st)" for p
    using that by (auto simp: filter_empty_conv)
  have um: "\<not> isMasked (mask ?st) ((yy * ?w + xx) * 4)" if "xx < ?w" "yy < ?h" for xx yy
  proof
    let ?i = "(yy * ?w + xx) * 4"
    assume a: "isMasked (mask ?st) ?i"
    then have n0: "rd (mask ?st) (?i + 3) \<noteq> Some 0" by (auto simp: isMasked_rd)
    then have e: "rd (mask ?st) (?i + 3) = rd (data msk) (?i + 3)"
      using pass_invD(3) [OF i, of "?i + 3"] by (auto split: if_splits)
    then have "isMasked (data msk) ?i" using a by (simp add: isMasked_def)
    from scan_complete [OF that this] have "?i \<in> set (map p_i (scan ?w ?h (data msk)))" by simp
    then have "?i \<in> set (map p_i (damagedPixels ?st))"
      by (simp only: pass_inv_p_i [OF i])
    then obtain p where p: "p \<in> set (damagedPixels ?st)" "p_i p = ?i" by auto
    from pass_inv_solved_cleared [OF i p(1) all [OF p(1)]] n0 p(2) show False by simp
  qed
  have "\<forall>yy<?h. \<forall>xx<?w. \<not> isMasked (mask ?st) ((yy * ?w + xx) * 4)"
    using um by blast
  then have "scan ?w ?h (mask ?st) = []" by (rule scan_Nil)
  then have s: "scan (width ?img) (height ?img) (data ?msk) = []"
    by simp
  note p = process_no_damage [OF s]
  show ?thesis
    unfolding Let_def using s p by (simp add: returned_def)
qed

theorem C8_witness:
  "remaining (fst (process img_3x1 msk_3x1)) = 0
   \<and> (let st = fst (process img_3x1 msk_3x1);
             img' = img_3x1\<lparr>data := dat st\<rparr>; msk' = msk_3x1\<lparr>data := mask st\<rparr> in
           scan (width img') (height img') (data msk') = []
         \<and> process img' msk' = (init img' msk', 0, Resolved)
         \<and> dat (fst (process img' msk')) = dat st
         \<and> mask (fst (process img' msk')) = mask st
         \<and> returned img' msk' = returned img_3x1 msk_3x1)
   \<and> dat (fst (process img_3x1 msk_3x1)) = [10, 20, 30, 40,  10, 20, 30, 255,  10, 20, 30, 255]"
proof -
  have h: "remaining (fst (process img_3x1 msk_3x1)) = 0"
    by code_simp
  have v: "dat (fst (process img_3x1 msk_3x1)) = [10, 20, 30, 40,  10, 20, 30, 255,  10, 20, 30, 255]"
    by code_simp
  from C8_idempotent [OF h] h v show ?thesis by blast
qed

subsection \<open>A mask without damage (C9)\<close>

text \<open>
  C9: when no pixel of the mask has alpha \<open>> 0\<close>, the scan finds no damaged pixel and
  \<^verbatim>\<open>process\<close> returns with both arrays as they were: the loop is never entered.
\<close>

theorem C9_no_damage_noop:
  assumes "\<forall>yy<height img. \<forall>xx<width img. \<not> isMasked (data msk) ((yy * width img + xx) * 4)"
  shows "scan (width img) (height img) (data msk) = []
       \<and> fst (process img msk) = init img msk
       \<and> dat (fst (process img msk)) = data img
       \<and> mask (fst (process img msk)) = data msk
       \<and> returned img msk = img"
proof -
  have s: "scan (width img) (height img) (data msk) = []"
    using assms by (rule scan_Nil)
  then have "remaining (init img msk) \<le> 0"
    by simp
  then have "process img msk = (init img msk, 0, Resolved)"
    unfolding process_def by (rule while_loop_done)
  with s show ?thesis
    by (simp add: returned_def)
qed

theorem C9_witness:
  "list_all (\<lambda>yy. list_all (\<lambda>xx.
      \<not> isMasked (data msk_2x1_clear) ((yy * width img_2x1 + xx) * 4)) [0..<width img_2x1])
      [0..<height img_2x1]
   \<and> scan (width img_2x1) (height img_2x1) (data msk_2x1_clear) = []
   \<and> fst (process img_2x1 msk_2x1_clear) = init img_2x1 msk_2x1_clear
   \<and> dat (fst (process img_2x1 msk_2x1_clear)) = data img_2x1
   \<and> mask (fst (process img_2x1 msk_2x1_clear)) = data msk_2x1_clear
   \<and> returned img_2x1 msk_2x1_clear = img_2x1"
proof -
  have h: "\<forall>yy<height img_2x1. \<forall>xx<width img_2x1.
      \<not> isMasked (data msk_2x1_clear) ((yy * width img_2x1 + xx) * 4)"
    unfolding all_less_upt by code_simp
  from C9_no_damage_noop [OF h] h show ?thesis
    unfolding all_less_upt by blast
qed

subsection \<open>What a call leaves unchanged (C10)\<close>

text \<open>
  C10: \<^verbatim>\<open>process\<close> leaves the four bytes of every pixel that the mask does not mark at
  the start unchanged, in the image array and in the mask array. A byte of the image
  array changes only inside the four bytes of a record of the scan; a byte of the mask
  array changes only at the alpha index \<open>p_i p + 3\<close> of a solved record. Both arrays keep
  their lengths.
\<close>

theorem C10_frame:
  "let w = width img; h = height img; st = fst (process img msk) in
     (\<forall>xx<w. \<forall>yy<h. \<not> isMasked (data msk) ((yy * w + xx) * 4) \<longrightarrow>
        (\<forall>c<4. rd (dat st) ((yy * w + xx) * 4 + c) = rd (data img) ((yy * w + xx) * 4 + c)
              \<and> rd (mask st) ((yy * w + xx) * 4 + c) = rd (data msk) ((yy * w + xx) * 4 + c)))
   \<and> (\<forall>j. rd (dat st) j \<noteq> rd (data img) j \<longrightarrow>
          (\<exists>p\<in>set (scan w h (data msk)). p_i p \<le> j \<and> j < p_i p + 4))
   \<and> (\<forall>j. rd (mask st) j \<noteq> rd (data msk) j \<longrightarrow>
          (\<exists>p\<in>set (damagedPixels st). solved p \<and> j = p_i p + 3))
   \<and> length (dat st) = length (data img) \<and> length (mask st) = length (data msk)"
proof -
  let ?w = "width img" and ?h = "height img" and ?st = "fst (process img msk)"
  note i = process_inv [of img msk]
  have m: "\<exists>p\<in>set (damagedPixels ?st). solved p \<and> j = p_i p + 3"
    if "rd (mask ?st) j \<noteq> rd (data msk) j" for j
    using that pass_invD(3) [OF i, of j] by (auto split: if_splits)
  have d: "\<exists>p\<in>set (scan ?w ?h (data msk)). p_i p \<le> j \<and> j < p_i p + 4"
    if "rd (dat ?st) j \<noteq> rd (data img) j" for j
  proof -
    from pass_invD(4) [OF i that] obtain p where
      p: "p \<in> set (damagedPixels ?st)" "p_i p \<le> j" "j < p_i p + 4" by blast
    then have "p_i p \<in> set (map p_i (damagedPixels ?st))" by simp
    then have "p_i p \<in> set (map p_i (scan ?w ?h (data msk)))"
      by (simp only: pass_inv_p_i [OF i])
    then obtain q where q: "q \<in> set (scan ?w ?h (data msk))" "p_i q = p_i p" by auto
    show ?thesis using q(1) p(2,3) unfolding q(2) [symmetric] by blast
  qed
  have u: "rd (dat ?st) ((yy * ?w + xx) * 4 + c) = rd (data img) ((yy * ?w + xx) * 4 + c)
         \<and> rd (mask ?st) ((yy * ?w + xx) * 4 + c) = rd (data msk) ((yy * ?w + xx) * 4 + c)"
    if "\<not> isMasked (data msk) ((yy * ?w + xx) * 4)" "c < 4" for xx yy c
  proof (intro conjI)
    let ?i = "(yy * ?w + xx) * 4"
    have i4: "4 dvd ?i" by simp
    show "rd (dat ?st) (?i + c) = rd (data img) (?i + c)"
    proof (rule ccontr)
      assume "rd (dat ?st) (?i + c) \<noteq> rd (data img) (?i + c)"
      from d [OF this] obtain p where
        p: "p \<in> set (scan ?w ?h (data msk))" "p_i p \<le> ?i + c" "?i + c < p_i p + 4" by blast
      from block_eq [OF i4 scan_records(5) [OF p(1)] p(2,3) that(2)]
      have "p_i p = ?i" .
      with scan_records(6) [OF p(1)] that(1) show False by simp
    qed
    show "rd (mask ?st) (?i + c) = rd (data msk) (?i + c)"
    proof (rule ccontr)
      assume "rd (mask ?st) (?i + c) \<noteq> rd (data msk) (?i + c)"
      from m [OF this] obtain p where
        p: "p \<in> set (damagedPixels ?st)" "?i + c = p_i p + 3" by blast
      have "p_i p = ?i"
        using block_eq [OF i4 pass_inv_record(1) [OF i p(1)] _ _ that(2)] p(2) by simp
      with pass_inv_record(2) [OF i p(1)] that(1) show False by simp
    qed
  qed
  have l: "length (dat ?st) = length (data img)" "length (mask ?st) = length (data msk)"
    using process_lengths by simp_all
  show ?thesis
    unfolding Let_def using u d m l by blast
qed

theorem C10_witness:
  "(0 < width img_3x1 \<and> 0 < height img_3x1
     \<and> \<not> isMasked (data msk_3x1) ((0 * width img_3x1 + 0) * 4))
   \<and> list_all (\<lambda>c. rd (dat (fst (process img_3x1 msk_3x1))) ((0 * width img_3x1 + 0) * 4 + c)
                      = rd (data img_3x1) ((0 * width img_3x1 + 0) * 4 + c)
                   \<and> rd (mask (fst (process img_3x1 msk_3x1))) ((0 * width img_3x1 + 0) * 4 + c)
                      = rd (data msk_3x1) ((0 * width img_3x1 + 0) * 4 + c)) [0..<4]
   \<and> dat (fst (process img_3x1 msk_3x1)) = [10, 20, 30, 40,  10, 20, 30, 255,  10, 20, 30, 255]
   \<and> mask (fst (process img_3x1 msk_3x1)) = [0, 0, 0, 0,  0, 0, 0, 0,  0, 0, 0, 0]"
proof -
  have h: "0 < width img_3x1" "0 < height img_3x1"
    "\<not> isMasked (data msk_3x1) ((0 * width img_3x1 + 0) * 4)"
    by code_simp+
  have "\<forall>c<4. rd (dat (fst (process img_3x1 msk_3x1))) ((0 * width img_3x1 + 0) * 4 + c)
                      = rd (data img_3x1) ((0 * width img_3x1 + 0) * 4 + c)
                   \<and> rd (mask (fst (process img_3x1 msk_3x1))) ((0 * width img_3x1 + 0) * 4 + c)
                      = rd (data msk_3x1) ((0 * width img_3x1 + 0) * 4 + c)"
    using C10_frame [of img_3x1 msk_3x1] h unfolding Let_def by blast
  then have a: "list_all (\<lambda>c. rd (dat (fst (process img_3x1 msk_3x1))) ((0 * width img_3x1 + 0) * 4 + c)
                      = rd (data img_3x1) ((0 * width img_3x1 + 0) * 4 + c)
                   \<and> rd (mask (fst (process img_3x1 msk_3x1))) ((0 * width img_3x1 + 0) * 4 + c)
                      = rd (data msk_3x1) ((0 * width img_3x1 + 0) * 4 + c)) [0..<4]"
    unfolding all_less_upt .
  have v: "dat (fst (process img_3x1 msk_3x1)) = [10, 20, 30, 40,  10, 20, 30, 255,  10, 20, 30, 255]"
    "mask (fst (process img_3x1 msk_3x1)) = [0, 0, 0, 0,  0, 0, 0, 0,  0, 0, 0, 0]"
    by code_simp+
  from h a v show ?thesis by blast
qed

end
